theory Spec2Isabelle
  imports Main "HOL-Library.AList" "HOL-Library.Multiset"
begin

section \<open>Data model of the crossword solver (crossword/generate.py)\<close>

text \<open>
  A variable is a grid slot: row, column, direction and length. Words are Python strings.
  The grid model (class Crossword) is a collaborator of the solver and is taken as a
  parameter: its variables (a Python set, iterated in the order of the list), its
  vocabulary, and its dictionary \<open>overlaps\<close> from ordered pairs of variables to either
  Python's None or a pair of indices.
\<close>

datatype direction = ACROSS | DOWN

datatype variable =
  Variable (var_i: nat) (var_j: nat) (var_direction: direction) (var_length: nat)

type_synonym word = string
type_synonym arc = "variable \<times> variable"
type_synonym assignment = "(variable \<times> word) list"

record crossword =
  variables :: "variable list"
  words :: "word list"
  overlaps :: "(arc \<times> (nat \<times> nat) option) list"

text \<open>The Python exceptions the solver's statements can raise.\<close>

datatype error = KeyError | IndexError | TypeError | ValueError | AttributeError

text \<open>
  Modelled from the spec: \<open>neighbors(v)\<close> of the grid model, whose class is not part of
  the solver's file, is "all variables overlapping v": the variables other than \<open>v\<close>
  whose overlap with \<open>v\<close> is defined.
\<close>

definition overlapping :: "crossword \<Rightarrow> variable \<Rightarrow> variable \<Rightarrow> bool" where
  "overlapping cw x y =
     (case map_of (overlaps cw) (x, y) of Some (Some p) \<Rightarrow> True | _ \<Rightarrow> False)"

definition neighbors :: "crossword \<Rightarrow> variable \<Rightarrow> variable list" where
  "neighbors cw var = filter (\<lambda>v. v \<noteq> var \<and> overlapping cw v var) (variables cw)"

text \<open>
  The creator object. \<open>self.domains\<close> is a dictionary from variables to set objects;
  the set objects live in a heap, so that a copy of the dictionary shares them.
  A Python set is a list without duplicates here, iterated in list order.
  \<open>backtrack_calls\<close> is a ghost counter of the invocations of \<open>backtrack\<close>; no
  statement of the program reads it.
\<close>

type_synonym addr = nat

record creator =
  domains :: "(variable \<times> addr) list"
  heap :: "addr \<Rightarrow> word list"
  backtrack_calls :: nat

text \<open>\<open>__init__\<close>: every variable gets its own copy of the vocabulary.\<close>

definition init :: "crossword \<Rightarrow> creator" where
  "init cw =
     \<lparr>domains = zip (variables cw) [0..<length (variables cw)],
      heap = (\<lambda>a. if a < length (variables cw) then words cw else []),
      backtrack_calls = 0\<rparr>"

text \<open>\<open>self.domains[v]\<close>, read as a set.\<close>

definition domain_of :: "creator \<Rightarrow> variable \<Rightarrow> error + word list" where
  "domain_of s v =
     (case map_of (domains s) v of None \<Rightarrow> Inl KeyError | Some a \<Rightarrow> Inr (heap s a))"

text \<open>\<open>self.domains[v].remove(w)\<close>: removes in place, KeyError when \<open>w\<close> is absent.\<close>

definition domain_remove :: "variable \<Rightarrow> word \<Rightarrow> creator \<Rightarrow> error + creator" where
  "domain_remove v w s =
     (case map_of (domains s) v of
        None \<Rightarrow> Inl KeyError
      | Some a \<Rightarrow>
          if w \<in> set (heap s a)
          then Inr (s\<lparr>heap := (heap s)(a := remove1 w (heap s a))\<rparr>)
          else Inl KeyError)"

text \<open>\<open>self.crossword.overlaps[x, y]\<close>.\<close>

definition overlap_lookup :: "crossword \<Rightarrow> variable \<Rightarrow> variable \<Rightarrow> error + (nat \<times> nat) option" where
  "overlap_lookup cw x y =
     (case map_of (overlaps cw) (x, y) of None \<Rightarrow> Inl KeyError | Some ov \<Rightarrow> Inr ov)"

text \<open>\<open>w[k]\<close> for a non-negative index.\<close>

definition char_at :: "word \<Rightarrow> nat \<Rightarrow> error + char" where
  "char_at w k = (if k < length w then Inr (w ! k) else Inl IndexError)"

section \<open>Node consistency\<close>

text \<open>The inner loop of \<open>enforce_node_consistency\<close>, over the copy \<open>words\<close>.\<close>

fun enforce_words :: "variable \<Rightarrow> word list \<Rightarrow> creator \<Rightarrow> error + creator" where
  "enforce_words var [] s = Inr s"
| "enforce_words var (w # ws) s =
     (if length w \<noteq> var_length var
      then (case domain_remove var w s of
              Inl e \<Rightarrow> Inl e
            | Inr s' \<Rightarrow> enforce_words var ws s')
      else enforce_words var ws s)"

fun enforce_vars :: "variable list \<Rightarrow> creator \<Rightarrow> error + creator" where
  "enforce_vars [] s = Inr s"
| "enforce_vars (var # vars) s =
     (case domain_of s var of
        Inl e \<Rightarrow> Inl e
      | Inr ws \<Rightarrow>
          (case enforce_words var ws s of
             Inl e \<Rightarrow> Inl e
           | Inr s' \<Rightarrow> enforce_vars vars s'))"

definition enforce_node_consistency :: "crossword \<Rightarrow> creator \<Rightarrow> error + creator" where
  "enforce_node_consistency cw s = enforce_vars (variables cw) s"

section \<open>Arc consistency\<close>

text \<open>
  The inner loop of \<open>revise\<close>: \<open>x_word\<close> is compared with every word of \<open>y\<close>'s domain,
  with no early exit.
\<close>

fun revise_inner :: "word \<Rightarrow> nat \<Rightarrow> nat \<Rightarrow> word list \<Rightarrow> bool \<Rightarrow> error + bool" where
  "revise_inner xw i j [] c = Inr c"
| "revise_inner xw i j (yw # yws) c =
     (case char_at xw i of
        Inl e \<Rightarrow> Inl e
      | Inr a \<Rightarrow>
          (case char_at yw j of
             Inl e \<Rightarrow> Inl e
           | Inr b \<Rightarrow> revise_inner xw i j yws (if a = b then True else c)))"

text \<open>The outer loop of \<open>revise\<close>, over the copy \<open>words\<close> of \<open>x\<close>'s domain.\<close>

fun revise_loop ::
  "variable \<Rightarrow> variable \<Rightarrow> nat \<times> nat \<Rightarrow> word list \<Rightarrow> bool \<Rightarrow> creator \<Rightarrow> error + (bool \<times> creator)" where
  "revise_loop x y ov [] revised s = Inr (revised, s)"
| "revise_loop x y ov (xw # xws) revised s =
     (case domain_of s y of
        Inl e \<Rightarrow> Inl e
      | Inr ys \<Rightarrow>
          (case revise_inner xw (fst ov) (snd ov) ys False of
             Inl e \<Rightarrow> Inl e
           | Inr c \<Rightarrow>
               if \<not> c
               then (case domain_remove x xw s of
                       Inl e \<Rightarrow> Inl e
                     | Inr s' \<Rightarrow> revise_loop x y ov xws True s')
               else revise_loop x y ov xws revised s))"

definition revise :: "crossword \<Rightarrow> variable \<Rightarrow> variable \<Rightarrow> creator \<Rightarrow> error + (bool \<times> creator)" where
  "revise cw x y s =
     (case overlap_lookup cw x y of
        Inl e \<Rightarrow> Inl e
      | Inr None \<Rightarrow> Inr (False, s)
      | Inr (Some ov) \<Rightarrow>
          (case domain_of s x of
             Inl e \<Rightarrow> Inl e
           | Inr ws \<Rightarrow> revise_loop x y ov ws False s))"

text \<open>
  The collection \<open>arcs\<close> that \<open>ac3\<close> works on is a Python list when \<open>ac3\<close> builds it
  itself and whatever the caller passed otherwise; \<open>backtrack\<close> passes a set. A set has
  \<open>copy\<close>, \<open>len\<close>, \<open>pop\<close> (some element, here the first of the list) and \<open>in\<close>, and no
  \<open>append\<close>. \<open>list.pop()\<close> takes the last element.
\<close>

datatype arcs = ArcList "arc list" | ArcSet "arc list"

fun arcs_items :: "arcs \<Rightarrow> arc list" where
  "arcs_items (ArcList q) = q"
| "arcs_items (ArcSet q) = q"

definition queue_len :: "arcs \<Rightarrow> nat" where
  "queue_len q = length (arcs_items q)"

fun queue_pop :: "arcs \<Rightarrow> arc \<times> arcs" where
  "queue_pop (ArcList q) = (last q, ArcList (butlast q))"
| "queue_pop (ArcSet q) = (hd q, ArcSet (tl q))"

fun queue_append :: "arc \<Rightarrow> arcs \<Rightarrow> error + arcs" where
  "queue_append a (ArcList q) = Inr (ArcList (q @ [a]))"
| "queue_append a (ArcSet q) = Inl AttributeError"

text \<open>The requeueing loop of \<open>ac3\<close> over the neighbors of the revised variable.\<close>

fun requeue :: "variable \<Rightarrow> variable list \<Rightarrow> arcs \<Rightarrow> error + arcs" where
  "requeue x [] q = Inr q"
| "requeue x (n # ns) q =
     (case (if (x, n) \<notin> set (arcs_items q) then queue_append (x, n) q else Inr q) of
        Inl e \<Rightarrow> Inl e
      | Inr q1 \<Rightarrow>
          (case (if (n, x) \<notin> set (arcs_items q1) then queue_append (n, x) q1 else Inr q1) of
             Inl e \<Rightarrow> Inl e
           | Inr q2 \<Rightarrow> requeue x ns q2))"

text \<open>The number of words in the store, counted per dictionary entry.\<close>

definition store_size :: "creator \<Rightarrow> nat" where
  "store_size s = sum_list (map (\<lambda>(v, a). length (heap s a)) (domains s))"

lemma sum_list_map_less:
  fixes f g :: "'a \<Rightarrow> nat"
  assumes "\<And>p. f p \<le> g p" and "q \<in> set xs" and "f q < g q"
  shows "sum_list (map f xs) < sum_list (map g xs)"
  using assms(2)
proof (induction xs)
  case Nil
  then show ?case by simp
next
  case (Cons p ps)
  have le: "sum_list (map f ps) \<le> sum_list (map g ps)"
    by (rule sum_list_mono) (rule assms(1))
  show ?case
  proof (cases "q = p")
    case True
    then show ?thesis using le assms(3) by simp
  next
    case False
    then have "sum_list (map f ps) < sum_list (map g ps)" using Cons by simp
    then show ?thesis using assms(1) [of p] by simp
  qed
qed

lemma store_size_remove:
  assumes "domain_remove v w s = Inr s'"
  shows "store_size s' < store_size s"
proof -
  from assms obtain a where a: "map_of (domains s) v = Some a" "w \<in> set (heap s a)"
    and s': "s' = s\<lparr>heap := (heap s)(a := remove1 w (heap s a))\<rparr>"
    by (auto simp: domain_remove_def split: option.splits if_splits)
  have mem: "(v, a) \<in> set (domains s)" using a(1) by (rule map_of_SomeD)
  have lt: "length (remove1 w (heap s a)) < length (heap s a)"
    using a(2) by (simp add: length_remove1) (cases "heap s a"; simp)
  have "sum_list (map (\<lambda>(v, b). length (heap s' b)) (domains s))
        < sum_list (map (\<lambda>(v, b). length (heap s b)) (domains s))"
  proof (rule sum_list_map_less [OF _ mem])
    show "\<And>p. (case p of (v, b) \<Rightarrow> length (heap s' b)) \<le> (case p of (v, b) \<Rightarrow> length (heap s b))"
      using lt by (auto simp: s')
    show "(case (v, a) of (v, b) \<Rightarrow> length (heap s' b)) < (case (v, a) of (v, b) \<Rightarrow> length (heap s b))"
      using lt by (simp add: s')
  qed
  then show ?thesis by (simp add: store_size_def s')
qed

lemma revise_loop_store_size:
  "revise_loop x y ov ws r s = Inr (r', s') \<Longrightarrow>
     store_size s' \<le> store_size s \<and> (r' \<and> \<not> r \<longrightarrow> store_size s' < store_size s)"
proof (induction ws arbitrary: r s)
  case Nil
  then show ?case by simp
next
  case (Cons w ws)
  from Cons.prems obtain ys c where ys: "domain_of s y = Inr ys"
    and c: "revise_inner w (fst ov) (snd ov) ys False = Inr c"
    by (auto split: sum.splits)
  show ?case
  proof (cases c)
    case True
    then have "revise_loop x y ov ws r s = Inr (r', s')"
      using Cons.prems ys c by simp
    then show ?thesis by (rule Cons.IH)
  next
    case False
    then obtain s1 where s1: "domain_remove x w s = Inr s1"
      and rest: "revise_loop x y ov ws True s1 = Inr (r', s')"
      using Cons.prems ys c by (auto split: sum.splits)
    from Cons.IH [OF rest] store_size_remove [OF s1] show ?thesis by simp
  qed
qed

lemma revise_store_size:
  "revise cw x y s = Inr (r, s') \<Longrightarrow>
     store_size s' \<le> store_size s \<and> (r \<longrightarrow> store_size s' < store_size s)"
  by (auto simp: revise_def split: sum.splits option.splits dest: revise_loop_store_size)

lemma queue_pop_len:
  "0 < queue_len q \<Longrightarrow> queue_len (snd (queue_pop q)) < queue_len q"
  by (cases q) (auto simp: queue_len_def)

text \<open>The while loop of \<open>ac3\<close>.\<close>

function ac3_loop :: "crossword \<Rightarrow> arcs \<Rightarrow> creator \<Rightarrow> error + (bool \<times> creator)" where
  "ac3_loop cw queue s =
     (if 0 < queue_len queue then
        (case revise cw (fst (fst (queue_pop queue))) (snd (fst (queue_pop queue))) s of
           Inl e \<Rightarrow> Inl e
         | Inr (revised, s1) \<Rightarrow>
             if revised then
               (case domain_of s1 (fst (fst (queue_pop queue))) of
                  Inl e \<Rightarrow> Inl e
                | Inr d \<Rightarrow>
                    if length d = 0 then Inr (False, s1)
                    else
                      (case requeue (fst (fst (queue_pop queue)))
                              (neighbors cw (fst (fst (queue_pop queue))))
                              (snd (queue_pop queue)) of
                         Inl e \<Rightarrow> Inl e
                       | Inr queue2 \<Rightarrow> ac3_loop cw queue2 s1))
             else ac3_loop cw (snd (queue_pop queue)) s1)
      else Inr (True, s))"
  by pat_completeness auto
termination
proof (relation "inv_image (less_than <*lex*> less_than)
                   (\<lambda>(cw, q, s). (store_size s, queue_len q))")
  show "wf (inv_image (less_than <*lex*> less_than)
             (\<lambda>(cw, q, s). (store_size s, queue_len q)))"
    by (intro wf_inv_image wf_lex_prod wf_less_than)
next
  fix cw queue s x2 revised s1 d queue2
  assume "revise cw (fst (fst (queue_pop queue))) (snd (fst (queue_pop queue))) s = Inr x2"
    and "(revised, s1) = x2" and "revised"
  then have "store_size s1 < store_size s"
    using revise_store_size [of cw _ _ s revised s1] by auto
  then show "((cw, queue2, s1), cw, queue, s)
        \<in> inv_image (less_than <*lex*> less_than) (\<lambda>(cw, q, s). (store_size s, queue_len q))"
    by simp
next
  fix cw queue s x2 revised s1
  assume "0 < queue_len queue"
    and "revise cw (fst (fst (queue_pop queue))) (snd (fst (queue_pop queue))) s = Inr x2"
    and "(revised, s1) = x2" and "\<not> revised"
  then have "store_size s1 \<le> store_size s" "queue_len (snd (queue_pop queue)) < queue_len queue"
    using revise_store_size [of cw _ _ s revised s1] queue_pop_len by auto
  then show "((cw, snd (queue_pop queue), s1), cw, queue, s)
        \<in> inv_image (less_than <*lex*> less_than) (\<lambda>(cw, q, s). (store_size s, queue_len q))"
    by auto
qed

text \<open>
  \<open>ac3\<close>: with no arcs given, the queue is the list of the keys of \<open>overlaps\<close> whose
  value is not None, in the dictionary's order; otherwise a copy of \<open>arcs\<close>.
\<close>

definition ac3 :: "crossword \<Rightarrow> arcs option \<Rightarrow> creator \<Rightarrow> error + (bool \<times> creator)" where
  "ac3 cw arcs s =
     (case arcs of
        None \<Rightarrow> ac3_loop cw (ArcList (map fst (filter (\<lambda>(k, v). v \<noteq> None) (overlaps cw)))) s
      | Some queue \<Rightarrow> ac3_loop cw queue s)"

section \<open>Backtracking search\<close>

text \<open>
  An assignment is a Python dictionary, kept in insertion order: an association list.
  \<open>var in assignment\<close> is \<open>map_of a var \<noteq> None\<close>; storing a word is \<open>AList.update\<close>.
\<close>

definition assignment_complete :: "crossword \<Rightarrow> assignment \<Rightarrow> bool" where
  "assignment_complete cw a = list_all (\<lambda>var. map_of a var \<noteq> None) (variables cw)"

text \<open>
  The loop of \<open>consistent\<close> over the neighbors of \<open>var\<close>: \<open>Inr False\<close> is the early
  \<open>return False\<close>.
\<close>

fun consistent_neighbors ::
  "crossword \<Rightarrow> assignment \<Rightarrow> variable \<Rightarrow> word \<Rightarrow> variable list \<Rightarrow> error + bool" where
  "consistent_neighbors cw a var w [] = Inr True"
| "consistent_neighbors cw a var w (n # ns) =
     (case map_of a n of
        None \<Rightarrow> consistent_neighbors cw a var w ns
      | Some nw \<Rightarrow>
          (case overlap_lookup cw var n of
             Inl e \<Rightarrow> Inl e
           | Inr None \<Rightarrow> Inl TypeError
           | Inr (Some ov) \<Rightarrow>
               (case char_at w (fst ov) of
                  Inl e \<Rightarrow> Inl e
                | Inr c1 \<Rightarrow>
                    (case char_at nw (snd ov) of
                       Inl e \<Rightarrow> Inl e
                     | Inr c2 \<Rightarrow>
                         if c1 \<noteq> c2 then Inr False
                         else consistent_neighbors cw a var w ns))))"

text \<open>
  The loop of \<open>consistent\<close> over the items of the assignment, with \<open>all_values\<close>;
  \<open>Inr None\<close> is the early \<open>return False\<close>.
\<close>

fun consistent_items ::
  "crossword \<Rightarrow> assignment \<Rightarrow> (variable \<times> word) list \<Rightarrow> word list \<Rightarrow> error + word list option" where
  "consistent_items cw a [] all_values = Inr (Some all_values)"
| "consistent_items cw a ((var, w) # items) all_values =
     (if var_length var \<noteq> length w then Inr None
      else
        (case consistent_neighbors cw a var w (neighbors cw var) of
           Inl e \<Rightarrow> Inl e
         | Inr ok \<Rightarrow>
             if ok then consistent_items cw a items (all_values @ [w])
             else Inr None))"

definition consistent :: "crossword \<Rightarrow> assignment \<Rightarrow> error + bool" where
  "consistent cw a =
     (case consistent_items cw a a [] of
        Inl e \<Rightarrow> Inl e
      | Inr None \<Rightarrow> Inr False
      | Inr (Some all_values) \<Rightarrow>
          if card (set all_values) \<noteq> length all_values then Inr False else Inr True)"

text \<open>
  \<open>order_domain_values\<close>. The dictionary \<open>words_ruled_out\<close> is a function from words to
  counters; its three nested loops follow.
\<close>

fun ruled_out_choices ::
  "word \<Rightarrow> (nat \<times> nat) option \<Rightarrow> word list \<Rightarrow> (word \<Rightarrow> nat) \<Rightarrow> error + (word \<Rightarrow> nat)" where
  "ruled_out_choices w ov [] counts = Inr counts"
| "ruled_out_choices w ov (pc # pcs) counts =
     (case ov of
        None \<Rightarrow> Inl TypeError
      | Some p \<Rightarrow>
          (case char_at w (fst p) of
             Inl e \<Rightarrow> Inl e
           | Inr c1 \<Rightarrow>
               (case char_at pc (snd p) of
                  Inl e \<Rightarrow> Inl e
                | Inr c2 \<Rightarrow>
                    ruled_out_choices w ov pcs
                      (if c1 \<noteq> c2 then counts(w := counts w + 1) else counts))))"

fun ruled_out_neighbors ::
  "crossword \<Rightarrow> creator \<Rightarrow> variable \<Rightarrow> word \<Rightarrow> variable list \<Rightarrow> (word \<Rightarrow> nat) \<Rightarrow> error + (word \<Rightarrow> nat)" where
  "ruled_out_neighbors cw s var w [] counts = Inr counts"
| "ruled_out_neighbors cw s var w (n # ns) counts =
     (case overlap_lookup cw var n of
        Inl e \<Rightarrow> Inl e
      | Inr ov \<Rightarrow>
          (case domain_of s n of
             Inl e \<Rightarrow> Inl e
           | Inr d \<Rightarrow>
               (case ruled_out_choices w ov d counts of
                  Inl e \<Rightarrow> Inl e
                | Inr counts' \<Rightarrow> ruled_out_neighbors cw s var w ns counts')))"

fun ruled_out_words ::
  "crossword \<Rightarrow> creator \<Rightarrow> variable \<Rightarrow> variable list \<Rightarrow> word list \<Rightarrow> (word \<Rightarrow> nat) \<Rightarrow> error + (word \<Rightarrow> nat)" where
  "ruled_out_words cw s var ns [] counts = Inr counts"
| "ruled_out_words cw s var ns (w # ws) counts =
     (case ruled_out_neighbors cw s var w ns counts of
        Inl e \<Rightarrow> Inl e
      | Inr counts' \<Rightarrow> ruled_out_words cw s var ns ws counts')"

definition order_domain_values ::
  "crossword \<Rightarrow> variable \<Rightarrow> assignment \<Rightarrow> creator \<Rightarrow> error + word list" where
  "order_domain_values cw var a s =
     (case domain_of s var of
        Inl e \<Rightarrow> Inl e
      | Inr d \<Rightarrow>
          (case ruled_out_words cw s var
                  (filter (\<lambda>v. map_of a v = None) (neighbors cw var)) d (\<lambda>w. 0) of
             Inl e \<Rightarrow> Inl e
           | Inr words_ruled_out \<Rightarrow> Inr (sort_key words_ruled_out d)))"

text \<open>
  \<open>select_unassigned_variable\<close>. \<open>unassigned_dict\<close> is built in the order of the
  variables; \<open>min\<close> of no values raises ValueError; a stable sort in reverse order is a
  stable sort of the reversed list, reversed.
\<close>

fun unassigned_sizes ::
  "creator \<Rightarrow> assignment \<Rightarrow> variable list \<Rightarrow> (variable \<times> nat) list \<Rightarrow> error + (variable \<times> nat) list" where
  "unassigned_sizes s a [] unassigned_dict = Inr unassigned_dict"
| "unassigned_sizes s a (var # vars) unassigned_dict =
     (if map_of a var = None
      then (case domain_of s var of
              Inl e \<Rightarrow> Inl e
            | Inr d \<Rightarrow> unassigned_sizes s a vars (AList.update var (length d) unassigned_dict))
      else unassigned_sizes s a vars unassigned_dict)"

definition select_unassigned_variable ::
  "crossword \<Rightarrow> assignment \<Rightarrow> creator \<Rightarrow> error + variable" where
  "select_unassigned_variable cw a s =
     (case unassigned_sizes s a (variables cw) [] of
        Inl e \<Rightarrow> Inl e
      | Inr unassigned_dict \<Rightarrow>
          if unassigned_dict = [] then Inl ValueError
          else
            (case (let lowest_list =
                         map fst (filter (\<lambda>(k, v). v = min_list (map snd unassigned_dict))
                                    unassigned_dict)
                   in if 1 < length lowest_list
                      then rev (sort_key (\<lambda>x. length (neighbors cw x)) (rev lowest_list))
                      else lowest_list) of
               [] \<Rightarrow> Inl IndexError
             | v # _ \<Rightarrow> Inr v))"

lemma unassigned_sizes_keys:
  "unassigned_sizes s a vars acc = Inr d \<Longrightarrow>
     fst ` set d = fst ` set acc \<union> {v \<in> set vars. map_of a v = None}"
proof (induction vars arbitrary: acc)
  case Nil
  then show ?case by simp
next
  case (Cons v vars)
  show ?case
  proof (cases "map_of a v = None")
    case True
    then obtain ws where "domain_of s v = Inr ws"
      and "unassigned_sizes s a vars (AList.update v (length ws) acc) = Inr d"
      using Cons.prems by (auto split: sum.splits)
    then show ?thesis using Cons.IH [of "AList.update v (length ws) acc"] True
      by (auto simp: AList.dom_update)
  next
    case False
    then have "unassigned_sizes s a vars acc = Inr d" using Cons.prems by auto
    from Cons.IH [OF this] False show ?thesis by auto
  qed
qed

lemma select_unassigned_variable_unassigned:
  assumes "select_unassigned_variable cw a s = Inr var"
  shows "var \<in> set (variables cw) \<and> map_of a var = None"
proof -
  from assms obtain d where d: "unassigned_sizes s a (variables cw) [] = Inr d"
    by (auto simp: select_unassigned_variable_def split: sum.splits)
  define l where "l = map fst (filter (\<lambda>(k, v). v = min_list (map snd d)) d)"
  define l' where "l' = (if 1 < length l then rev (sort_key (\<lambda>x. length (neighbors cw x)) (rev l)) else l)"
  have "set l' = set l" by (simp add: l'_def)
  moreover have "set l \<subseteq> fst ` set d" by (auto simp: l_def)
  moreover have "var \<in> set l'"
  proof -
    have "(case l' of [] \<Rightarrow> Inl IndexError | v # _ \<Rightarrow> Inr v) = Inr var"
      using assms d unfolding select_unassigned_variable_def l'_def l_def Let_def
      by (simp split: if_splits)
    then show ?thesis by (cases l') auto
  qed
  ultimately have "var \<in> fst ` set d" by blast
  then show ?thesis using unassigned_sizes_keys [OF d] by auto
qed

text \<open>The ghost step at the entry of \<open>backtrack\<close>: one more invocation.\<close>

definition count_call :: "creator \<Rightarrow> creator" where
  "count_call s = s\<lparr>backtrack_calls := Suc (backtrack_calls s)\<rparr>"

text \<open>The variables outside a set of keys, counted: the measure of the search.\<close>

definition unassigned_count :: "crossword \<Rightarrow> variable set \<Rightarrow> nat" where
  "unassigned_count cw ks = length (filter (\<lambda>v. v \<notin> ks) (variables cw))"

lemma unassigned_count_insert:
  assumes "var \<in> set (variables cw)" and "var \<notin> ks"
  shows "unassigned_count cw (insert var ks) < unassigned_count cw ks"
proof -
  have "filter (\<lambda>v. v \<notin> insert var ks) (variables cw)
        = filter (\<lambda>v. v \<noteq> var) (filter (\<lambda>v. v \<notin> ks) (variables cw))"
    by (auto intro: filter_cong)
  moreover have "var \<in> set (filter (\<lambda>v. v \<notin> ks) (variables cw))"
    using assms by simp
  ultimately show ?thesis
    unfolding unassigned_count_def
    by (metis (mono_tags, lifting) length_filter_less)
qed

text \<open>
  \<open>backtrack\<close>, and its loop over the candidate words \<open>backtrack_words\<close>. The snapshot
  \<open>prev_domains = self.domains.copy()\<close> is a new dictionary holding the same set
  objects: \<open>domains s\<close>; restoring it replaces the dictionary and leaves the heap as
  it is. The results of \<open>ac3\<close> are not looked at.
\<close>

function backtrack :: "crossword \<Rightarrow> assignment \<Rightarrow> creator \<Rightarrow> error + (assignment option \<times> creator)"
  and backtrack_words ::
    "crossword \<Rightarrow> assignment \<Rightarrow> variable \<Rightarrow> word list \<Rightarrow> creator \<Rightarrow> error + (assignment option \<times> creator)"
where
  "backtrack cw a s =
     (if assignment_complete cw a then Inr (Some a, count_call s)
      else
        (case select_unassigned_variable cw a (count_call s) of
           Inl e \<Rightarrow> Inl e
         | Inr var \<Rightarrow>
             (case order_domain_values cw var a (count_call s) of
                Inl e \<Rightarrow> Inl e
              | Inr ws \<Rightarrow> backtrack_words cw a var ws (count_call s))))"
| "backtrack_words cw a var [] s = Inr (None, s)"
| "backtrack_words cw a var (w # ws) s =
     (case consistent cw (AList.update var w a) of
        Inl e \<Rightarrow> Inl e
      | Inr ok \<Rightarrow>
          if ok then
            (case ac3 cw (Some (ArcSet (map (\<lambda>x. (x, var)) (neighbors cw var)))) s of
               Inl e \<Rightarrow> Inl e
             | Inr (inferred, s1) \<Rightarrow>
                 (case backtrack cw (AList.update var w a) s1 of
                    Inl e \<Rightarrow> Inl e
                  | Inr (result, s2) \<Rightarrow>
                      if result \<noteq> None then Inr (result, s2)
                      else backtrack_words cw a var ws (s2\<lparr>domains := domains s\<rparr>)))
          else backtrack_words cw a var ws s)"
  by pat_completeness auto
termination
  apply (relation "inv_image (less_than <*lex*> less_than)
           (\<lambda>x. case x of
                  Inl (cw, a, s) \<Rightarrow> (2 * unassigned_count cw (fst ` set a), 0)
                | Inr (cw, a, var, ws, s) \<Rightarrow>
                    (2 * unassigned_count cw (insert var (fst ` set a)) + 1, length ws))")
  apply (intro wf_inv_image wf_lex_prod wf_less_than)
  subgoal for cw a s var ws
    using select_unassigned_variable_unassigned [of cw a "count_call s" var]
          unassigned_count_insert [of var cw "fst ` set a"]
    by (simp add: map_of_eq_None_iff)
  subgoal by (simp add: AList.dom_update)
  subgoal by simp
  subgoal by simp
  done

text \<open>\<open>solve\<close>: the result of \<open>ac3\<close> is not looked at.\<close>

definition solve :: "crossword \<Rightarrow> creator \<Rightarrow> error + (assignment option \<times> creator)" where
  "solve cw s =
     (case enforce_node_consistency cw s of
        Inl e \<Rightarrow> Inl e
      | Inr s1 \<Rightarrow>
          (case ac3 cw None s1 of
             Inl e \<Rightarrow> Inl e
           | Inr (arc_consistent, s2) \<Rightarrow> backtrack cw [] s2))"

section \<open>Specification vocabulary and example crosswords\<close>

text \<open>
  The words of \<open>domain(v)\<close>, none when \<open>v\<close> has no entry. A store is well formed when
  \<open>self.domains\<close> is a dictionary (no key twice), no two entries share a set object, and
  every set object is a set (no word twice); a creator is well formed for a crossword
  when, moreover, the keys of \<open>self.domains\<close> are the crossword's variables, as
  \<open>__init__\<close> leaves them.
\<close>

definition domain_words :: "creator \<Rightarrow> variable \<Rightarrow> word list" where
  "domain_words s v = (case map_of (domains s) v of None \<Rightarrow> [] | Some a \<Rightarrow> heap s a)"

definition wf_store :: "creator \<Rightarrow> bool" where
  "wf_store s \<longleftrightarrow>
     distinct (map fst (domains s)) \<and>
     distinct (map snd (domains s)) \<and>
     (\<forall>a\<in>set (map snd (domains s)). distinct (heap s a))"

definition wf_creator :: "crossword \<Rightarrow> creator \<Rightarrow> bool" where
  "wf_creator cw s \<longleftrightarrow> wf_store s \<and> set (map fst (domains s)) = set (variables cw)"

text \<open>
  Scenario A of the specification: an across slot of length 3 and a down slot of length 4
  that cross at index 1 of the first and index 2 of the second.
\<close>

definition across_slot :: variable where
  "across_slot = Variable 2 0 ACROSS 3"

definition down_slot :: variable where
  "down_slot = Variable 0 1 DOWN 4"

definition scenario_a :: crossword where
  "scenario_a =
     \<lparr>variables = [across_slot, down_slot],
      words = [''cat'', ''dog'', ''frog'', ''acts''],
      overlaps = [((across_slot, down_slot), Some (1, 2)), ((down_slot, across_slot), Some (2, 1))]\<rparr>"

text \<open>
  Two words agree at an overlap \<open>(i, j)\<close> when both indices are inside the words and
  the characters there are equal.
\<close>

definition agree :: "nat \<times> nat \<Rightarrow> word \<Rightarrow> word \<Rightarrow> bool" where
  "agree ov wx wy \<longleftrightarrow>
     fst ov < length wx \<and> snd ov < length wy \<and> wx ! fst ov = wy ! snd ov"

definition supported :: "nat \<times> nat \<Rightarrow> word list \<Rightarrow> word \<Rightarrow> bool" where
  "supported ov ys wx \<longleftrightarrow> list_ex (agree ov wx) ys"

text \<open>Scenario A after node consistency: the creator the witnesses start from.\<close>

definition scenario_a_store :: creator where
  "scenario_a_store =
     \<lparr>domains = [(across_slot, 0), (down_slot, 1)],
      heap = (\<lambda>a. if a = 0 then [''cat'', ''dog''] else if a = 1 then [''frog'', ''acts''] else []),
      backtrack_calls = 0\<rparr>"

text \<open>Scenario A after \<open>revise(down, across)\<close> has removed the unsupported word.\<close>

definition scenario_a_revised :: creator where
  "scenario_a_revised =
     \<lparr>domains = [(across_slot, 0), (down_slot, 1)],
      heap = (\<lambda>a. if a = 0 then [''cat'', ''dog''] else if a = 1 then [''frog''] else []),
      backtrack_calls = 0\<rparr>"

text \<open>
  The grid model the solver may assume: the variables are a set; \<open>overlaps\<close> is a
  dictionary whose keys are the ordered pairs of distinct variables; an overlap is
  symmetric with its indices swapped, and its indices lie inside the two variables.
\<close>

definition wf_crossword :: "crossword \<Rightarrow> bool" where
  "wf_crossword cw \<longleftrightarrow>
     distinct (variables cw) \<and>
     distinct (map fst (overlaps cw)) \<and>
     (\<forall>k\<in>set (map fst (overlaps cw)).
        fst k \<in> set (variables cw) \<and> snd k \<in> set (variables cw) \<and> fst k \<noteq> snd k) \<and>
     (\<forall>x\<in>set (variables cw). \<forall>y\<in>set (variables cw). x \<noteq> y \<longrightarrow>
        (case map_of (overlaps cw) (x, y) of
           None \<Rightarrow> False
         | Some None \<Rightarrow> map_of (overlaps cw) (y, x) = Some None
         | Some (Some (i, j)) \<Rightarrow>
             i < var_length x \<and> j < var_length y \<and>
             map_of (overlaps cw) (y, x) = Some (Some (j, i))))"

text \<open>
  A valid assignment, in the words of the specification: every assigned word has the
  length of its variable, every two assigned variables with a defined overlap agree at
  the overlap indices, and no word is assigned twice.
\<close>

definition valid_assignment :: "crossword \<Rightarrow> assignment \<Rightarrow> bool" where
  "valid_assignment cw a \<longleftrightarrow>
     (\<forall>(v, w)\<in>set a. length w = var_length v) \<and>
     (\<forall>(x, wx)\<in>set a. \<forall>(y, wy)\<in>set a.
        (case map_of (overlaps cw) (x, y) of
           Some (Some ov) \<Rightarrow> agree ov wx wy
         | _ \<Rightarrow> True)) \<and>
     distinct (map snd a)"

text \<open>
  A store is node consistent when every word in the domain of a variable has the
  variable's length. The eliminated-count of a word \<open>w\<close> for \<open>var\<close>: over the unassigned
  neighbors of \<open>var\<close>, the number of words in the neighbor's domain that do not agree with
  \<open>w\<close> at the overlap indices.
\<close>

definition node_consistent :: "crossword \<Rightarrow> creator \<Rightarrow> bool" where
  "node_consistent cw s \<longleftrightarrow>
     (\<forall>v\<in>set (variables cw). \<forall>w\<in>set (domain_words s v). length w = var_length v)"

definition eliminated_in :: "crossword \<Rightarrow> creator \<Rightarrow> variable \<Rightarrow> word \<Rightarrow> variable \<Rightarrow> nat" where
  "eliminated_in cw s var w n =
     (case map_of (overlaps cw) (var, n) of
        Some (Some ov) \<Rightarrow> length (filter (\<lambda>c. \<not> agree ov w c) (domain_words s n))
      | _ \<Rightarrow> 0)"

definition eliminated :: "crossword \<Rightarrow> creator \<Rightarrow> assignment \<Rightarrow> variable \<Rightarrow> word \<Rightarrow> nat" where
  "eliminated cw s a var w =
     sum_list (map (eliminated_in cw s var w)
                 (filter (\<lambda>v. map_of a v = None) (neighbors cw var)))"

text \<open>
  The store is arc consistent when, for every ordered pair with a defined overlap, every
  word of the first domain agrees with some word of the second at the overlap indices.
\<close>

definition arc_consistent :: "crossword \<Rightarrow> creator \<Rightarrow> bool" where
  "arc_consistent cw s \<longleftrightarrow>
     (\<forall>(k, v)\<in>set (overlaps cw).
        (case v of
           None \<Rightarrow> True
         | Some ov \<Rightarrow>
             (\<forall>w\<in>set (domain_words s (fst k)). supported ov (domain_words s (snd k)) w)))"

text \<open>
  The invariant of the loop of \<open>ac3\<close> started with all arcs: every queued arc has a
  defined overlap, and every arc with a defined overlap that is not queued is consistent.
\<close>

definition arc_ok :: "creator \<Rightarrow> variable \<Rightarrow> variable \<Rightarrow> nat \<times> nat \<Rightarrow> bool" where
  "arc_ok s x y p \<longleftrightarrow> (\<forall>w\<in>set (domain_words s x). supported p (domain_words s y) w)"

definition ac3_inv :: "crossword \<Rightarrow> arc list \<Rightarrow> creator \<Rightarrow> bool" where
  "ac3_inv cw q s \<longleftrightarrow>
     wf_creator cw s \<and> node_consistent cw s \<and>
     (\<forall>(x, y)\<in>set q. \<exists>p. map_of (overlaps cw) (x, y) = Some (Some p)) \<and>
     (\<forall>x y p. map_of (overlaps cw) (x, y) = Some (Some p) \<longrightarrow> (x, y) \<notin> set q \<longrightarrow>
        arc_ok s x y p)"

text \<open>What a run of the loop guarantees, from the creator \<open>s\<close> to the result \<open>(b, s')\<close>.\<close>

definition ac3_post :: "crossword \<Rightarrow> creator \<Rightarrow> bool \<Rightarrow> creator \<Rightarrow> bool" where
  "ac3_post cw s b s' \<longleftrightarrow>
     wf_creator cw s' \<and> node_consistent cw s' \<and>
     backtrack_calls s' = backtrack_calls s \<and> domains s' = domains s \<and>
     (\<forall>v. set (domain_words s' v) \<subseteq> set (domain_words s v)) \<and>
     (b \<longrightarrow> (\<forall>x y p. map_of (overlaps cw) (x, y) = Some (Some p) \<longrightarrow> arc_ok s' x y p) \<and>
            (\<forall>v. domain_words s' v \<noteq> domain_words s v \<longrightarrow> domain_words s' v \<noteq> [])) \<and>
     (\<not> b \<longrightarrow> (\<exists>x. domain_words s x \<noteq> [] \<and> domain_words s' x = [] \<and>
                   (\<forall>v. domain_words s v \<noteq> [] \<and> domain_words s' v = [] \<longrightarrow> v = x)))"

text \<open>Scenario A with a vocabulary that has no solution, after node consistency.\<close>

definition scenario_unsat_store :: creator where
  "scenario_unsat_store =
     \<lparr>domains = [(across_slot, 0), (down_slot, 1)],
      heap = (\<lambda>a. if a = 0 then [''cat''] else if a = 1 then [''frog''] else []),
      backtrack_calls = 0\<rparr>"

text \<open>What a test observes of a result: the value, the two domains, the ghost counter.\<close>

definition observe :: "error + ('a \<times> creator) \<Rightarrow> error + ('a \<times> word list \<times> word list \<times> nat)" where
  "observe r =
     (case r of
        Inl e \<Rightarrow> Inl e
      | Inr (x, s) \<Rightarrow>
          Inr (x, domain_words s across_slot, domain_words s down_slot, backtrack_calls s))"

text \<open>Scenario A with the vocabulary \<open>cat\<close>, \<open>frog\<close>: no solution.\<close>

definition scenario_unsat :: crossword where
  "scenario_unsat = scenario_a\<lparr>words := [''cat'', ''frog'']\<rparr>"

section \<open>Well-formed inputs\<close>

lemma wf_store_inj:
  assumes "wf_store s" and "map_of (domains s) x = Some a" and "map_of (domains s) y = Some a"
  shows "x = y"
proof -
  have "distinct (map snd (domains s))" using assms(1) by (simp add: wf_store_def)
  moreover have "(x, a) \<in> set (domains s)" "(y, a) \<in> set (domains s)"
    using assms(2,3) by (auto dest: map_of_SomeD)
  ultimately show ?thesis
    by (metis eq_key_imp_eq_value distinct_map inj_onD prod.inject snd_conv)
qed

lemma wf_store_distinct:
  "wf_store s \<Longrightarrow> map_of (domains s) x = Some a \<Longrightarrow> distinct (heap s a)"
  by (force simp: wf_store_def dest: map_of_SomeD)

section \<open>Node consistency: what \<open>enforce_node_consistency\<close> computes\<close>

lemma enforce_words_filter:
  assumes "map_of (domains s) var = Some a"
    and "distinct (heap s a)" and "distinct ws" and "set ws \<subseteq> set (heap s a)"
  shows "enforce_words var ws s =
         Inr (s\<lparr>heap := (heap s)(a := filter (\<lambda>w. w \<notin> set ws \<or> length w = var_length var) (heap s a))\<rparr>)"
  using assms
proof (induction ws arbitrary: s)
  case Nil
  then show ?case by simp
next
  case (Cons w ws)
  show ?case
  proof (cases "length w = var_length var")
    case True
    have "filter (\<lambda>u. u \<notin> set ws \<or> length u = var_length var) (heap s a)
        = filter (\<lambda>u. u \<notin> set (w # ws) \<or> length u = var_length var) (heap s a)"
      using True by (auto intro: filter_cong)
    then show ?thesis using True Cons.IH [of s] Cons.prems by simp
  next
    case False
    define s1 where "s1 = s\<lparr>heap := (heap s)(a := remove1 w (heap s a))\<rparr>"
    have rm: "domain_remove var w s = Inr s1"
      using Cons.prems by (simp add: domain_remove_def s1_def)
    have r1: "remove1 w (heap s a) = filter (\<lambda>u. u \<noteq> w) (heap s a)"
      using Cons.prems(2) by (simp add: distinct_remove1_removeAll removeAll_filter_not_eq) (metis)
    have "enforce_words var ws s1 =
          Inr (s1\<lparr>heap := (heap s1)(a := filter (\<lambda>u. u \<notin> set ws \<or> length u = var_length var) (heap s1 a))\<rparr>)"
      using Cons.prems by (intro Cons.IH) (auto simp: s1_def)
    moreover have "filter (\<lambda>u. u \<notin> set ws \<or> length u = var_length var) (heap s1 a)
        = filter (\<lambda>u. u \<notin> set (w # ws) \<or> length u = var_length var) (heap s a)"
      using False by (auto simp: s1_def r1 intro: filter_cong)
    moreover have "\<And>X. s1\<lparr>heap := (heap s1)(a := X)\<rparr> = s\<lparr>heap := (heap s)(a := X)\<rparr>"
      by (simp add: s1_def)
    ultimately have "enforce_words var ws s1 =
        Inr (s\<lparr>heap := (heap s)(a := filter (\<lambda>u. u \<notin> set (w # ws) \<or> length u = var_length var) (heap s a))\<rparr>)"
      by simp
    then show ?thesis using False rm by (simp add: fun_upd_def)
  qed
qed

lemma enforce_words_domain:
  assumes "wf_store s" and "map_of (domains s) var = Some a"
  shows "enforce_words var (heap s a) s =
         Inr (s\<lparr>heap := (heap s)(a := filter (\<lambda>w. length w = var_length var) (heap s a))\<rparr>)"
proof -
  have d: "distinct (heap s a)" using assms by (rule wf_store_distinct)
  have "filter (\<lambda>w. w \<notin> set (heap s a) \<or> length w = var_length var) (heap s a)
        = filter (\<lambda>w. length w = var_length var) (heap s a)"
    by (auto intro: filter_cong)
  then show ?thesis using enforce_words_filter [OF assms(2) d d] by simp
qed

lemma wf_store_filter:
  assumes "wf_store s"
  shows "wf_store (s\<lparr>heap := (heap s)(a := filter P (heap s a))\<rparr>)"
  using assms by (auto simp: wf_store_def)

lemma enforce_vars_result:
  assumes "wf_store s" and "set vars \<subseteq> fst ` set (domains s)"
  shows "\<exists>s'. enforce_vars vars s = Inr s' \<and> domains s' = domains s \<and>
           backtrack_calls s' = backtrack_calls s \<and>
           (\<forall>v a. map_of (domains s) v = Some a \<longrightarrow>
              heap s' a = (if v \<in> set vars then filter (\<lambda>w. length w = var_length v) (heap s a)
                           else heap s a)) \<and>
           (\<forall>b. b \<notin> snd ` set (domains s) \<longrightarrow> heap s' b = heap s b)"
  using assms
proof (induction vars arbitrary: s)
  case Nil
  then show ?case by simp
next
  case (Cons var vars)
  from Cons.prems(2) obtain a where a: "map_of (domains s) var = Some a"
    by (metis list.set_intros(1) map_of_eq_None_iff not_Some_eq subsetD)
  define s1 where "s1 = s\<lparr>heap := (heap s)(a := filter (\<lambda>w. length w = var_length var) (heap s a))\<rparr>"
  have wf1: "wf_store s1" unfolding s1_def using Cons.prems(1) by (rule wf_store_filter)
  have dom1: "domains s1 = domains s" by (simp add: s1_def)
  have ew: "enforce_words var (heap s a) s = Inr s1"
    unfolding s1_def using Cons.prems(1) a by (rule enforce_words_domain)
  from Cons.IH [OF wf1] Cons.prems(2) dom1
  obtain s' where s': "enforce_vars vars s1 = Inr s'" "domains s' = domains s"
    "backtrack_calls s' = backtrack_calls s1"
    "\<forall>v b. map_of (domains s) v = Some b \<longrightarrow>
       heap s' b = (if v \<in> set vars then filter (\<lambda>w. length w = var_length v) (heap s1 b)
                    else heap s1 b)"
    "\<forall>b. b \<notin> snd ` set (domains s) \<longrightarrow> heap s' b = heap s1 b"
    by auto
  have run: "enforce_vars (var # vars) s = Inr s'"
    using a ew s'(1) by (simp add: domain_of_def)
  have ain: "a \<in> snd ` set (domains s)"
    using a by (force dest: map_of_SomeD)
  have "heap s' b = (if v \<in> set (var # vars) then filter (\<lambda>w. length w = var_length v) (heap s b)
                     else heap s b)" if vb: "map_of (domains s) v = Some b" for v b
  proof (cases "v = var")
    case True
    then have "b = a" using vb a by simp
    then show ?thesis using s'(4) vb True by (simp add: s1_def)
  next
    case False
    then have "b \<noteq> a" using wf_store_inj [OF Cons.prems(1) vb] a by blast
    then show ?thesis using s'(4) vb False by (simp add: s1_def)
  qed
  moreover have "heap s' b = heap s b" if "b \<notin> snd ` set (domains s)" for b
    using that s'(5) ain by (auto simp: s1_def)
  ultimately show ?case using run s'(2,3) by (auto simp: s1_def)
qed

lemma domain_of_words:
  "map_of (domains s) v = Some a \<Longrightarrow> domain_of s v = Inr (domain_words s v)"
  by (simp add: domain_of_def domain_words_def)

text \<open>
  C9. On a well-formed creator \<open>enforce_node_consistency\<close> raises nothing and leaves in
  the domain of every variable exactly the words of that domain whose length is the
  variable's length, in their order (so every remaining word has that length); run again
  on the resulting creator, it returns that creator unchanged.
\<close>

theorem enforce_node_consistency_exact:
  assumes "wf_creator cw s"
  shows "\<exists>s'. enforce_node_consistency cw s = Inr s' \<and>
           (\<forall>v\<in>set (variables cw).
              domain_of s' v = Inr (filter (\<lambda>w. length w = var_length v) (domain_words s v))) \<and>
           enforce_node_consistency cw s' = Inr s'"
proof -
  have wf: "wf_store s" and keys: "set (variables cw) \<subseteq> fst ` set (domains s)"
    using assms by (auto simp: wf_creator_def)
  from enforce_vars_result [OF wf keys]
  obtain s' where s': "enforce_vars (variables cw) s = Inr s'" "domains s' = domains s"
    "backtrack_calls s' = backtrack_calls s"
    "\<And>v a. map_of (domains s) v = Some a \<Longrightarrow>
       heap s' a = (if v \<in> set (variables cw)
                    then filter (\<lambda>w. length w = var_length v) (heap s a) else heap s a)"
    "\<And>b. b \<notin> snd ` set (domains s) \<Longrightarrow> heap s' b = heap s b"
    by blast
  have wf': "wf_store s'"
    unfolding wf_store_def
  proof (intro conjI ballI)
    show "distinct (map fst (domains s'))" "distinct (map snd (domains s'))"
      using wf s'(2) by (simp_all add: wf_store_def)
    fix a assume "a \<in> set (map snd (domains s'))"
    then obtain v where va: "(v, a) \<in> set (domains s)" using s'(2) by auto
    then have m: "map_of (domains s) v = Some a"
      using wf by (simp add: wf_store_def)
    have "distinct (heap s a)" using wf m by (rule wf_store_distinct)
    then show "distinct (heap s' a)" using s'(4) [OF m] by simp
  qed
  have keys': "set (variables cw) \<subseteq> fst ` set (domains s')" using keys s'(2) by simp
  from enforce_vars_result [OF wf' keys']
  obtain s'' where s'': "enforce_vars (variables cw) s' = Inr s''" "domains s'' = domains s'"
    "backtrack_calls s'' = backtrack_calls s'"
    "\<And>v a. map_of (domains s') v = Some a \<Longrightarrow>
       heap s'' a = (if v \<in> set (variables cw)
                     then filter (\<lambda>w. length w = var_length v) (heap s' a) else heap s' a)"
    "\<And>b. b \<notin> snd ` set (domains s') \<Longrightarrow> heap s'' b = heap s' b"
    by blast
  have "heap s'' b = heap s' b" for b
  proof (cases "b \<in> snd ` set (domains s)")
    case True
    then obtain v where "(v, b) \<in> set (domains s)" by auto
    then have m: "map_of (domains s) v = Some b" using wf by (simp add: wf_store_def)
    show ?thesis using s''(4) [of v b] s'(4) [OF m] m s'(2) by simp
  next
    case False
    then show ?thesis using s''(5) [of b] s'(2) by simp
  qed
  then have "heap s'' = heap s'" by (rule ext)
  then have same: "s'' = s'" using s''(2,3) by simp
  have "domain_of s' v = Inr (filter (\<lambda>w. length w = var_length v) (domain_words s v))"
    if "v \<in> set (variables cw)" for v
  proof -
    from that keys obtain a where m: "map_of (domains s) v = Some a"
      by (metis map_of_eq_None_iff not_Some_eq subsetD)
    show ?thesis using s'(4) [OF m] that m s'(2) by (simp add: domain_of_def domain_words_def)
  qed
  then show ?thesis using s'(1) s''(1) same by (auto simp: enforce_node_consistency_def)
qed

theorem enforce_node_consistency_exact_witness:
  "wf_creator scenario_a (init scenario_a) \<and>
   (\<exists>s'. enforce_node_consistency scenario_a (init scenario_a) = Inr s' \<and>
      domain_of s' across_slot = Inr [''cat'', ''dog''] \<and>
      domain_of s' down_slot = Inr [''frog'', ''acts''] \<and>
      enforce_node_consistency scenario_a s' = Inr s')"
proof -
  have wf: "wf_creator scenario_a (init scenario_a)"
    by (simp add: wf_creator_def wf_store_def init_def scenario_a_def across_slot_def down_slot_def)
  from enforce_node_consistency_exact [OF wf]
  obtain s' where s': "enforce_node_consistency scenario_a (init scenario_a) = Inr s'"
    "\<forall>v\<in>set (variables scenario_a).
       domain_of s' v = Inr (filter (\<lambda>w. length w = var_length v) (domain_words (init scenario_a) v))"
    "enforce_node_consistency scenario_a s' = Inr s'"
    by blast
  have "domain_of s' across_slot = Inr [''cat'', ''dog'']"
    using s'(2) by (simp add: init_def scenario_a_def across_slot_def down_slot_def domain_words_def)
  moreover have "domain_of s' down_slot = Inr [''frog'', ''acts'']"
    using s'(2) by (simp add: init_def scenario_a_def across_slot_def down_slot_def domain_words_def)
  ultimately show ?thesis using wf s'(1,3) by blast
qed

section \<open>Arc consistency: what \<open>revise\<close> computes\<close>

lemma revise_inner_supported:
  assumes "fst ov < length xw" and "\<forall>w\<in>set ys. snd ov < length w"
  shows "revise_inner xw (fst ov) (snd ov) ys c = Inr (c \<or> supported ov ys xw)"
  using assms(2)
proof (induction ys arbitrary: c)
  case Nil
  then show ?case by (simp add: supported_def)
next
  case (Cons y ys)
  then show ?case using assms(1)
    by (auto simp: supported_def char_at_def agree_def)
qed

lemma revise_inner_empty: "revise_inner xw i j [] c = Inr c"
  by simp

lemma revise_loop_filter:
  assumes "map_of (domains s) x = Some ax" and "map_of (domains s) y = Some ay"
    and "ax \<noteq> ay"
    and "distinct (heap s ax)" and "distinct ws" and "set ws \<subseteq> set (heap s ax)"
    and "\<forall>w\<in>set ws. fst ov < length w" and "\<forall>w\<in>set (heap s ay). snd ov < length w"
  shows "revise_loop x y ov ws r s =
         Inr (r \<or> (\<exists>w\<in>set ws. \<not> supported ov (heap s ay) w),
              s\<lparr>heap := (heap s)(ax := filter (\<lambda>w. w \<notin> set ws \<or> supported ov (heap s ay) w) (heap s ax))\<rparr>)"
  using assms
proof (induction ws arbitrary: s r)
  case Nil
  then show ?case by simp
next
  case (Cons w ws)
  have dy: "domain_of s y = Inr (heap s ay)" using Cons.prems(2) by (simp add: domain_of_def)
  have inner: "revise_inner w (fst ov) (snd ov) (heap s ay) False = Inr (supported ov (heap s ay) w)"
    using revise_inner_supported [of ov w "heap s ay" False] Cons.prems(7,8) by simp
  show ?case
  proof (cases "supported ov (heap s ay) w")
    case True
    have "filter (\<lambda>u. u \<notin> set ws \<or> supported ov (heap s ay) u) (heap s ax)
        = filter (\<lambda>u. u \<notin> set (w # ws) \<or> supported ov (heap s ay) u) (heap s ax)"
      using True by (auto intro: filter_cong)
    moreover have "(\<exists>u\<in>set ws. \<not> supported ov (heap s ay) u)
        = (\<exists>u\<in>set (w # ws). \<not> supported ov (heap s ay) u)"
      using True by auto
    moreover have "revise_loop x y ov ws r s =
         Inr (r \<or> (\<exists>w\<in>set ws. \<not> supported ov (heap s ay) w),
              s\<lparr>heap := (heap s)(ax := filter (\<lambda>w. w \<notin> set ws \<or> supported ov (heap s ay) w) (heap s ax))\<rparr>)"
      using Cons.prems by (intro Cons.IH) auto
    ultimately show ?thesis using True dy inner by (simp add: fun_upd_def)
  next
    case False
    define s1 where "s1 = s\<lparr>heap := (heap s)(ax := remove1 w (heap s ax))\<rparr>"
    have rm: "domain_remove x w s = Inr s1"
      using Cons.prems by (simp add: domain_remove_def s1_def)
    have r1: "remove1 w (heap s ax) = filter (\<lambda>u. u \<noteq> w) (heap s ax)"
      using Cons.prems(4) by (simp add: distinct_remove1_removeAll removeAll_filter_not_eq) (metis)
    have ay1: "heap s1 ay = heap s ay" using Cons.prems(3) by (simp add: s1_def)
    have "revise_loop x y ov ws True s1 =
          Inr (True \<or> (\<exists>w\<in>set ws. \<not> supported ov (heap s1 ay) w),
               s1\<lparr>heap := (heap s1)(ax := filter (\<lambda>u. u \<notin> set ws \<or> supported ov (heap s1 ay) u) (heap s1 ax))\<rparr>)"
      using Cons.prems by (intro Cons.IH) (auto simp: s1_def)
    moreover have "filter (\<lambda>u. u \<notin> set ws \<or> supported ov (heap s1 ay) u) (heap s1 ax)
        = filter (\<lambda>u. u \<notin> set (w # ws) \<or> supported ov (heap s ay) u) (heap s ax)"
      unfolding ay1 using False by (auto simp: s1_def r1 intro: filter_cong)
    moreover have "\<And>X. s1\<lparr>heap := (heap s1)(ax := X)\<rparr> = s\<lparr>heap := (heap s)(ax := X)\<rparr>"
      by (simp add: s1_def)
    ultimately have "revise_loop x y ov ws True s1 =
        Inr (True, s\<lparr>heap := (heap s)(ax := filter (\<lambda>u. u \<notin> set (w # ws) \<or> supported ov (heap s ay) u) (heap s ax))\<rparr>)"
      by simp
    then show ?thesis using False rm dy inner by (simp add: fun_upd_def)
  qed
qed

lemma revise_overlap:
  assumes "wf_store s" and "x \<noteq> y"
    and "map_of (domains s) x = Some ax" and "map_of (domains s) y = Some ay"
    and "overlap_lookup cw x y = Inr (Some ov)"
    and "\<forall>w\<in>set (heap s ax). fst ov < length w" and "\<forall>w\<in>set (heap s ay). snd ov < length w"
  shows "revise cw x y s =
         Inr (\<exists>w\<in>set (heap s ax). \<not> supported ov (heap s ay) w,
              s\<lparr>heap := (heap s)(ax := filter (supported ov (heap s ay)) (heap s ax))\<rparr>)"
proof -
  have ne: "ax \<noteq> ay" using wf_store_inj [OF assms(1,3)] assms(2,4) by blast
  have d: "distinct (heap s ax)" using assms(1,3) by (rule wf_store_distinct)
  have "filter (\<lambda>w. w \<notin> set (heap s ax) \<or> supported ov (heap s ay) w) (heap s ax)
        = filter (supported ov (heap s ay)) (heap s ax)"
    by (auto intro: filter_cong)
  then show ?thesis
    using revise_loop_filter [OF assms(3,4) ne d d subset_refl assms(6,7), of False] assms(3,5)
    by (simp add: revise_def domain_of_def)
qed

lemma revise_step:
  assumes "wf_store s" and "overlap_lookup cw x y = Inr (Some p)" and "x \<noteq> y"
    and "map_of (domains s) x \<noteq> None" and "map_of (domains s) y \<noteq> None"
    and "\<forall>w\<in>set (domain_words s x). fst p < length w"
    and "\<forall>w\<in>set (domain_words s y). snd p < length w"
  shows "\<exists>r s1. revise cw x y s = Inr (r, s1) \<and> domains s1 = domains s \<and>
           backtrack_calls s1 = backtrack_calls s \<and> wf_store s1 \<and>
           domain_words s1 x = filter (supported p (domain_words s y)) (domain_words s x) \<and>
           (\<forall>v. v \<noteq> x \<longrightarrow> domain_words s1 v = domain_words s v) \<and>
           (r \<longleftrightarrow> domain_words s1 x \<noteq> domain_words s x)"
proof -
  from assms(4,5) obtain ax ay where ax: "map_of (domains s) x = Some ax"
    and ay: "map_of (domains s) y = Some ay" by auto
  define s1 where "s1 = s\<lparr>heap := (heap s)(ax := filter (supported p (heap s ay)) (heap s ax))\<rparr>"
  define r0 where "r0 \<longleftrightarrow> (\<exists>w\<in>set (heap s ax). \<not> supported p (heap s ay) w)"
  have run: "revise cw x y s = Inr (r0, s1)"
    unfolding s1_def r0_def using assms(1,3) ax ay assms(2,6,7)
    by (intro revise_overlap) (simp_all add: domain_words_def)
  have x': "domain_words s1 x = filter (supported p (domain_words s y)) (domain_words s x)"
    using ax ay by (simp add: domain_words_def s1_def)
  have other: "domain_words s1 v = domain_words s v" if "v \<noteq> x" for v
  proof (cases "map_of (domains s) v")
    case None
    then show ?thesis by (simp add: domain_words_def s1_def)
  next
    case (Some b)
    then have "b \<noteq> ax" using wf_store_inj [OF assms(1) ax, of v] that by blast
    then show ?thesis using Some by (simp add: domain_words_def s1_def)
  qed
  have r: "r0 \<longleftrightarrow> domain_words s1 x \<noteq> domain_words s x"
    unfolding x' r0_def using ax ay by (auto simp: domain_words_def filter_id_conv)
  have wf1: "wf_store s1" unfolding s1_def using assms(1) by (rule wf_store_filter)
  have "domains s1 = domains s" "backtrack_calls s1 = backtrack_calls s"
    by (simp_all add: s1_def)
  then show ?thesis using run x' other r wf1 by blast
qed

text \<open>
  C5. With no overlap between \<open>x\<close> and \<open>y\<close> (the dictionary holds None), \<open>revise\<close>
  returns False and the creator as it was. With an overlap \<open>ov\<close>, on a well-formed store
  where \<open>x\<close> and \<open>y\<close> are distinct variables with domains whose words reach the overlap
  indices, \<open>revise\<close> leaves in \<open>domain(x)\<close> exactly the words that agree with some word
  of \<open>domain(y)\<close> at the overlap indices, changes no other domain (so not \<open>domain(y)\<close>),
  and returns True if and only if \<open>domain(x)\<close> changed.
\<close>

theorem revise_exact:
  "(overlap_lookup cw x y = Inr None \<longrightarrow> revise cw x y s = Inr (False, s)) \<and>
   (overlap_lookup cw x y = Inr (Some ov) \<and> wf_store s \<and> x \<noteq> y \<and>
    map_of (domains s) x \<noteq> None \<and> map_of (domains s) y \<noteq> None \<and>
    (\<forall>w\<in>set (domain_words s x). fst ov < length w) \<and>
    (\<forall>w\<in>set (domain_words s y). snd ov < length w) \<longrightarrow>
      (\<exists>revised s'. revise cw x y s = Inr (revised, s') \<and>
         domain_words s' x = filter (supported ov (domain_words s y)) (domain_words s x) \<and>
         (\<forall>v. v \<noteq> x \<longrightarrow> domain_words s' v = domain_words s v) \<and>
         domains s' = domains s \<and>
         (revised \<longleftrightarrow> domain_words s' x \<noteq> domain_words s x)))"
proof (intro conjI impI)
  assume "overlap_lookup cw x y = Inr None"
  then show "revise cw x y s = Inr (False, s)" by (simp add: revise_def)
next
  assume h: "overlap_lookup cw x y = Inr (Some ov) \<and> wf_store s \<and> x \<noteq> y \<and>
    map_of (domains s) x \<noteq> None \<and> map_of (domains s) y \<noteq> None \<and>
    (\<forall>w\<in>set (domain_words s x). fst ov < length w) \<and>
    (\<forall>w\<in>set (domain_words s y). snd ov < length w)"
  then have "\<exists>r s1. revise cw x y s = Inr (r, s1) \<and> domains s1 = domains s \<and>
           backtrack_calls s1 = backtrack_calls s \<and> wf_store s1 \<and>
           domain_words s1 x = filter (supported ov (domain_words s y)) (domain_words s x) \<and>
           (\<forall>v. v \<noteq> x \<longrightarrow> domain_words s1 v = domain_words s v) \<and>
           (r \<longleftrightarrow> domain_words s1 x \<noteq> domain_words s x)"
    by (intro revise_step) simp_all
  then obtain r s1 where "revise cw x y s = Inr (r, s1)" "domains s1 = domains s"
    "domain_words s1 x = filter (supported ov (domain_words s y)) (domain_words s x)"
    "\<forall>v. v \<noteq> x \<longrightarrow> domain_words s1 v = domain_words s v"
    "r \<longleftrightarrow> domain_words s1 x \<noteq> domain_words s x"
    by blast
  then show "\<exists>revised s'. revise cw x y s = Inr (revised, s') \<and>
         domain_words s' x = filter (supported ov (domain_words s y)) (domain_words s x) \<and>
         (\<forall>v. v \<noteq> x \<longrightarrow> domain_words s' v = domain_words s v) \<and>
         domains s' = domains s \<and>
         (revised \<longleftrightarrow> domain_words s' x \<noteq> domain_words s x)"
    by (intro exI [of _ r] exI [of _ s1] conjI)
qed

lemmas scenario_defs =
  scenario_a_def scenario_a_store_def across_slot_def down_slot_def

theorem revise_exact_witness:
  "wf_store scenario_a_store \<and> down_slot \<noteq> across_slot \<and>
   overlap_lookup scenario_a down_slot across_slot = Inr (Some (2, 1)) \<and>
   (\<exists>s'. revise scenario_a down_slot across_slot scenario_a_store = Inr (True, s') \<and>
      domain_words s' down_slot = [''frog''] \<and>
      domain_words s' across_slot = [''cat'', ''dog''])"
proof -
  have wf: "wf_store scenario_a_store" by (simp add: wf_store_def scenario_defs)
  have ne: "down_slot \<noteq> across_slot" by (simp add: scenario_defs)
  have ov: "overlap_lookup scenario_a down_slot across_slot = Inr (Some (2, 1))"
    by (simp add: overlap_lookup_def scenario_defs)
  have dw: "domain_words scenario_a_store down_slot = [''frog'', ''acts'']"
    "domain_words scenario_a_store across_slot = [''cat'', ''dog'']"
    by (simp_all add: domain_words_def scenario_defs)
  have "\<exists>revised s'. revise scenario_a down_slot across_slot scenario_a_store = Inr (revised, s') \<and>
      domain_words s' down_slot
        = filter (supported (2, 1) (domain_words scenario_a_store across_slot))
            (domain_words scenario_a_store down_slot) \<and>
      (\<forall>v. v \<noteq> down_slot \<longrightarrow> domain_words s' v = domain_words scenario_a_store v) \<and>
      domains s' = domains scenario_a_store \<and>
      (revised \<longleftrightarrow> domain_words s' down_slot \<noteq> domain_words scenario_a_store down_slot)"
    using revise_exact [of scenario_a down_slot across_slot scenario_a_store "(2, 1)"]
      wf ne ov dw
    by (simp add: scenario_defs)
  then obtain revised s' where
    r: "revise scenario_a down_slot across_slot scenario_a_store = Inr (revised, s')"
    and d: "domain_words s' down_slot
        = filter (supported (2, 1) (domain_words scenario_a_store across_slot))
            (domain_words scenario_a_store down_slot)"
    and o: "\<forall>v. v \<noteq> down_slot \<longrightarrow> domain_words s' v = domain_words scenario_a_store v"
    and c: "revised \<longleftrightarrow> domain_words s' down_slot \<noteq> domain_words scenario_a_store down_slot"
    by blast
  have d': "domain_words s' down_slot = [''frog'']"
    unfolding d dw by (simp add: supported_def agree_def)
  have rv: "revised" using c d' dw by simp
  have a': "domain_words s' across_slot = [''cat'', ''dog'']"
    using o ne dw by metis
  show ?thesis using wf ne ov r d' rv a' by (intro conjI exI [of _ s']) simp_all
qed

section \<open>Variable selection\<close>

lemma unassigned_sizes_map:
  assumes "unassigned_sizes s a vars acc = Inr d" and "distinct (map fst acc)"
  shows "distinct (map fst d) \<and>
         map_of d = (\<lambda>v. if v \<in> set vars \<and> map_of a v = None
                          then Some (length (domain_words s v)) else map_of acc v)"
  using assms
proof (induction vars arbitrary: acc)
  case Nil
  then show ?case by simp
next
  case (Cons var vars)
  show ?case
  proof (cases "map_of a var = None")
    case True
    then obtain ws where ws: "domain_of s var = Inr ws"
      and rest: "unassigned_sizes s a vars (AList.update var (length ws) acc) = Inr d"
      using Cons.prems by (auto split: sum.splits)
    have len: "length ws = length (domain_words s var)"
      using ws by (auto simp: domain_of_def domain_words_def split: option.splits)
    have "distinct (map fst (AList.update var (length ws) acc))"
      using Cons.prems(2) by (simp add: distinct_update)
    from Cons.IH [OF rest this] show ?thesis
      using True len by (auto simp: update_conv' fun_eq_iff)
  next
    case False
    then have "unassigned_sizes s a vars acc = Inr d" using Cons.prems by auto
    from Cons.IH [OF this Cons.prems(2)] False show ?thesis by (auto simp: fun_eq_iff)
  qed
qed

lemma unassigned_sizes_total:
  assumes "\<forall>v\<in>set vars. map_of a v = None \<longrightarrow> map_of (domains s) v \<noteq> None"
  shows "\<exists>d. unassigned_sizes s a vars acc = Inr d"
  using assms
proof (induction vars arbitrary: acc)
  case Nil
  then show ?case by simp
next
  case (Cons var vars)
  then show ?case by (auto simp: domain_of_def split: option.splits)
qed

lemma sorted_le_last:
  fixes xs :: "nat list"
  shows "sorted xs \<Longrightarrow> x \<in> set xs \<Longrightarrow> x \<le> last xs"
proof (induction xs)
  case Nil
  then show ?case by simp
next
  case (Cons a xs)
  then show ?case by (cases "xs = []") auto
qed

lemma sort_key_last_max:
  fixes f :: "'a \<Rightarrow> nat"
  assumes "u \<in> set xs"
  shows "f u \<le> f (last (sort_key f xs))"
proof -
  have ne: "sort_key f xs \<noteq> []" using assms by (metis empty_iff list.set(1) set_sort)
  have "sorted (map f (sort_key f xs))" by (rule sorted_sort_key)
  moreover have "f u \<in> set (map f (sort_key f xs))" using assms by simp
  ultimately have "f u \<le> last (map f (sort_key f xs))" by (rule sorted_le_last)
  then show ?thesis using ne by (simp add: last_map)
qed

lemma select_unassigned_variable_choice:
  assumes "\<not> assignment_complete cw a"
    and "\<forall>v\<in>set (variables cw). map_of a v = None \<longrightarrow> map_of (domains s) v \<noteq> None"
  shows "\<exists>var. select_unassigned_variable cw a s = Inr var \<and>
           var \<in> set (variables cw) \<and> map_of a var = None \<and>
           (\<forall>u\<in>set (variables cw). map_of a u = None \<longrightarrow>
              length (domain_words s var) \<le> length (domain_words s u)) \<and>
           (\<forall>u\<in>set (variables cw).
              map_of a u = None \<and> length (domain_words s u) = length (domain_words s var) \<longrightarrow>
              length (neighbors cw u) \<le> length (neighbors cw var))"
proof -
  from unassigned_sizes_total [OF assms(2)]
  obtain d where d: "unassigned_sizes s a (variables cw) [] = Inr d" by blast
  from unassigned_sizes_map [OF d]
  have dist: "distinct (map fst d)"
    and md: "\<And>v. map_of d v = (if v \<in> set (variables cw) \<and> map_of a v = None
                          then Some (length (domain_words s v)) else None)"
    by (simp_all add: fun_eq_iff)
  have mem: "(v, n) \<in> set d \<longleftrightarrow>
             v \<in> set (variables cw) \<and> map_of a v = None \<and> n = length (domain_words s v)" for v n
    using map_of_eq_Some_iff [OF dist, of v n] md [of v] by (auto split: if_splits)
  from assms(1) obtain u0 where u0: "u0 \<in> set (variables cw)" "map_of a u0 = None"
    by (auto simp: assignment_complete_def list_all_iff)
  then have ne: "d \<noteq> []" using mem [of u0 "length (domain_words s u0)"] by auto
  define m where "m = min_list (map snd d)"
  have mMin: "m = Min (set (map snd d))" unfolding m_def using ne by (simp add: min_list_Min)
  then have m_in: "m \<in> set (map snd d)" using ne by (metis Min_in List.finite_set set_empty map_is_Nil_conv)
  have m_le: "\<And>n. n \<in> set (map snd d) \<Longrightarrow> m \<le> n" unfolding mMin by simp
  define l where "l = map fst (filter (\<lambda>(k, v). v = m) d)"
  define f where "f = (\<lambda>x. length (neighbors cw x))"
  define l' where "l' = (if 1 < length l then rev (sort_key f (rev l)) else l)"
  have l_set: "set l = {v. (v, m) \<in> set d}" by (force simp: l_def)
  have l_ne: "l \<noteq> []" using m_in l_set by (metis (mono_tags, lifting) empty_Collect_eq empty_set imageE list.set_map prod.collapse)
  have set': "set l' = set l" by (simp add: l'_def)
  then have l'_ne: "l' \<noteq> []" using l_ne by (metis set_empty)
  then obtain var rest where l'eq: "l' = var # rest" by (cases l') auto
  have sel: "select_unassigned_variable cw a s = Inr var"
    using d ne l'eq unfolding select_unassigned_variable_def l'_def l_def m_def f_def Let_def
    by simp
  have var_l: "var \<in> set l" using l'eq set' by (metis list.set_intros(1))
  then have var_d: "(var, m) \<in> set d" using l_set by simp
  then have var_props: "var \<in> set (variables cw)" "map_of a var = None"
    "m = length (domain_words s var)" using mem by auto
  have minimal: "length (domain_words s var) \<le> length (domain_words s u)"
    if "u \<in> set (variables cw)" "map_of a u = None" for u
  proof -
    have "(u, length (domain_words s u)) \<in> set d" using that mem by simp
    then have "length (domain_words s u) \<in> set (map snd d)" by force
    from m_le [OF this] show ?thesis using var_props(3) by simp
  qed
  have degree: "f u \<le> f var"
    if "u \<in> set (variables cw)" "map_of a u = None"
       "length (domain_words s u) = length (domain_words s var)" for u
  proof -
    have ul: "u \<in> set l" using that mem var_props(3) l_set by simp
    show ?thesis
    proof (cases "1 < length l")
      case True
      then have "l' = rev (sort_key f (rev l))" by (simp add: l'_def)
      then have "var = last (sort_key f (rev l))"
        using l'eq by (metis hd_rev list.sel(1) rev_rev_ident)
      then show ?thesis using sort_key_last_max [of u "rev l" f] ul by simp
    next
      case False
      then have "length l = 1" using l_ne by (cases l) auto
      then have "u = var" using ul var_l by (cases l) auto
      then show ?thesis by simp
    qed
  qed
  show ?thesis using sel var_props(1,2) minimal degree unfolding f_def by blast
qed

text \<open>
  C6. When some variable is unassigned and every unassigned variable has a domain,
  \<open>select_unassigned_variable\<close> returns a variable of the crossword that is not in the
  assignment, whose domain is no larger than that of any unassigned variable, and whose
  neighbor count is no smaller than that of any unassigned variable with a domain of the
  same size.
\<close>

theorem select_unassigned_variable_mrv_degree:
  assumes "\<not> assignment_complete cw a"
    and "\<forall>v\<in>set (variables cw). map_of a v = None \<longrightarrow> map_of (domains s) v \<noteq> None"
  shows "\<exists>var. select_unassigned_variable cw a s = Inr var \<and>
           var \<in> set (variables cw) \<and> map_of a var = None \<and>
           (\<forall>u\<in>set (variables cw). map_of a u = None \<longrightarrow>
              length (domain_words s var) \<le> length (domain_words s u)) \<and>
           (\<forall>u\<in>set (variables cw).
              map_of a u = None \<and> length (domain_words s u) = length (domain_words s var) \<longrightarrow>
              length (neighbors cw u) \<le> length (neighbors cw var))"
proof -
  from select_unassigned_variable_choice [OF assms]
  obtain var where "select_unassigned_variable cw a s = Inr var"
    and "var \<in> set (variables cw)" and "map_of a var = None"
    and "\<forall>u\<in>set (variables cw). map_of a u = None \<longrightarrow>
              length (domain_words s var) \<le> length (domain_words s u)"
    and "\<forall>u\<in>set (variables cw).
              map_of a u = None \<and> length (domain_words s u) = length (domain_words s var) \<longrightarrow>
              length (neighbors cw u) \<le> length (neighbors cw var)"
    by blast
  then show ?thesis by (intro exI [of _ var] conjI)
qed

theorem select_unassigned_variable_mrv_degree_witness:
  "\<not> assignment_complete scenario_a [] \<and>
   select_unassigned_variable scenario_a [] scenario_a_revised = Inr down_slot"
proof -
  have inc: "\<not> assignment_complete scenario_a []"
    by (simp add: assignment_complete_def scenario_defs)
  have doms: "\<forall>v\<in>set (variables scenario_a).
      map_of ([]::assignment) v = None \<longrightarrow> map_of (domains scenario_a_revised) v \<noteq> None"
    by (simp add: scenario_a_revised_def scenario_defs)
  from select_unassigned_variable_mrv_degree [OF inc doms]
  obtain var where sel: "select_unassigned_variable scenario_a [] scenario_a_revised = Inr var"
    and var: "var \<in> set (variables scenario_a)"
    and le: "\<forall>u\<in>set (variables scenario_a). map_of ([]::assignment) u = None \<longrightarrow>
              length (domain_words scenario_a_revised var)
              \<le> length (domain_words scenario_a_revised u)"
    by blast
  have "length (domain_words scenario_a_revised var)
        \<le> length (domain_words scenario_a_revised down_slot)"
    using le by (simp add: scenario_defs)
  then have "var \<noteq> across_slot"
    by (auto simp: domain_words_def scenario_a_revised_def scenario_defs)
  then have "var = down_slot" using var by (simp add: scenario_defs)
  then show ?thesis using inc sel by simp
qed

section \<open>ValueError is raised by \<open>min\<close> only\<close>

declare ac3_loop.simps [simp del] backtrack.simps [simp del]

lemma basic_no_ValueError:
  "domain_of s v \<noteq> Inl ValueError"
  "domain_remove v w s \<noteq> Inl ValueError"
  "overlap_lookup cw x y \<noteq> Inl ValueError"
  "char_at w k \<noteq> Inl ValueError"
  by (auto simp: domain_of_def domain_remove_def overlap_lookup_def char_at_def
      split: option.splits)

lemma revise_inner_no_ValueError: "revise_inner xw i j ys c \<noteq> Inl ValueError"
  by (induction ys arbitrary: c) (auto simp: basic_no_ValueError split: sum.splits)

lemma revise_loop_no_ValueError: "revise_loop x y ov ws r s \<noteq> Inl ValueError"
  by (induction ws arbitrary: r s)
    (auto simp: basic_no_ValueError revise_inner_no_ValueError split: sum.splits)

lemma revise_no_ValueError: "revise cw x y s \<noteq> Inl ValueError"
  by (auto simp: revise_def basic_no_ValueError revise_loop_no_ValueError
      split: sum.splits option.splits)

lemma queue_append_no_ValueError: "queue_append a q \<noteq> Inl ValueError"
  by (cases q) auto

lemma requeue_no_ValueError: "requeue x ns q \<noteq> Inl ValueError"
  by (induction ns arbitrary: q) (auto simp: queue_append_no_ValueError split: sum.splits)

lemma ac3_loop_no_ValueError: "ac3_loop cw q s \<noteq> Inl ValueError"
proof (induction cw q s rule: ac3_loop.induct)
  case (1 cw queue s)
  show ?case
    apply (subst ac3_loop.simps)
    using "1.IH"
    by (auto simp: revise_no_ValueError basic_no_ValueError requeue_no_ValueError
        split: sum.splits prod.splits)
qed

lemma ac3_no_ValueError: "ac3 cw arcs s \<noteq> Inl ValueError"
  by (auto simp: ac3_def ac3_loop_no_ValueError split: option.splits)

lemma consistent_neighbors_no_ValueError:
  "consistent_neighbors cw a var w ns \<noteq> Inl ValueError"
  by (induction ns) (auto simp: basic_no_ValueError split: sum.splits option.splits)

lemma consistent_items_no_ValueError: "consistent_items cw a items vs \<noteq> Inl ValueError"
  by (induction items arbitrary: vs)
    (auto simp: consistent_neighbors_no_ValueError split: sum.splits if_splits)

lemma consistent_no_ValueError: "consistent cw a \<noteq> Inl ValueError"
  by (auto simp: consistent_def consistent_items_no_ValueError split: sum.splits option.splits)

lemma ruled_out_choices_no_ValueError: "ruled_out_choices w ov pcs counts \<noteq> Inl ValueError"
  by (induction pcs arbitrary: counts)
    (auto simp: basic_no_ValueError split: sum.splits option.splits)

lemma ruled_out_neighbors_no_ValueError:
  "ruled_out_neighbors cw s var w ns counts \<noteq> Inl ValueError"
  by (induction ns arbitrary: counts)
    (auto simp: basic_no_ValueError ruled_out_choices_no_ValueError split: sum.splits)

lemma ruled_out_words_no_ValueError:
  "ruled_out_words cw s var ns ws counts \<noteq> Inl ValueError"
  by (induction ws arbitrary: counts)
    (auto simp: ruled_out_neighbors_no_ValueError split: sum.splits)

lemma order_domain_values_no_ValueError: "order_domain_values cw var a s \<noteq> Inl ValueError"
  by (auto simp: order_domain_values_def basic_no_ValueError ruled_out_words_no_ValueError
      split: sum.splits)

lemma unassigned_sizes_no_ValueError: "unassigned_sizes s a vars acc \<noteq> Inl ValueError"
  by (induction vars arbitrary: acc) (auto simp: basic_no_ValueError split: sum.splits)

lemma unassigned_sizes_complete:
  "list_all (\<lambda>var. map_of a var \<noteq> None) vars \<Longrightarrow> unassigned_sizes s a vars acc = Inr acc"
  by (induction vars) auto

lemma select_complete_ValueError:
  "assignment_complete cw a \<Longrightarrow> select_unassigned_variable cw a s = Inl ValueError"
  by (simp add: assignment_complete_def select_unassigned_variable_def unassigned_sizes_complete)

lemma select_incomplete_no_ValueError:
  assumes "\<not> assignment_complete cw a"
  shows "select_unassigned_variable cw a s \<noteq> Inl ValueError"
proof (cases "unassigned_sizes s a (variables cw) []")
  case (Inl e)
  then show ?thesis
    using unassigned_sizes_no_ValueError [of s a "variables cw" "[]"]
    by (auto simp: select_unassigned_variable_def)
next
  case (Inr d)
  from assms obtain u where "u \<in> set (variables cw)" "map_of a u = None"
    by (auto simp: assignment_complete_def list_all_iff)
  then have "d \<noteq> []" using unassigned_sizes_keys [OF Inr] by auto
  then show ?thesis using Inr
    by (auto simp: select_unassigned_variable_def Let_def split: list.splits)
qed

lemma backtrack_no_ValueError:
  "backtrack cw a s \<noteq> Inl ValueError"
  "backtrack_words cw a var ws s' \<noteq> Inl ValueError"
proof (induction cw a s and cw a var ws s' rule: backtrack_backtrack_words.induct)
  case (1 cw a s)
  show ?case
  proof (cases "assignment_complete cw a")
    case True
    then show ?thesis by (simp add: backtrack.simps)
  next
    case False
    then show ?thesis
      apply (subst backtrack.simps)
      using "1.IH" select_incomplete_no_ValueError [OF False, of "count_call s"]
        order_domain_values_no_ValueError
      by (auto split: sum.splits)
  qed
next
  case (2 cw a var s)
  then show ?case by simp
next
  case (3 cw a var w ws s)
  let ?a' = "AList.update var w a"
  let ?arcs = "Some (ArcSet (map (\<lambda>x. (x, var)) (neighbors cw var)))"
  show ?case
  proof (cases "consistent cw ?a'")
    case (Inl e)
    then show ?thesis using consistent_no_ValueError [of cw ?a'] by auto
  next
    case c: (Inr ok)
    show ?thesis
    proof (cases ok)
      case False
      then show ?thesis using c "3.IH"(3) by simp
    next
      case True
      show ?thesis
      proof (cases "ac3 cw ?arcs s")
        case (Inl e)
        then show ?thesis using c True ac3_no_ValueError [of cw ?arcs s] by auto
      next
        case (Inr p)
        obtain inferred s1 where p: "p = (inferred, s1)" by (cases p)
        have bt: "backtrack cw ?a' s1 \<noteq> Inl ValueError"
          using "3.IH"(1) [OF c True Inr [unfolded p] refl] .
        show ?thesis
        proof (cases "backtrack cw ?a' s1")
          case (Inl e)
          then show ?thesis using c True Inr p bt by auto
        next
          case r: (Inr q)
          obtain result s2 where q: "q = (result, s2)" by (cases q)
          show ?thesis
          proof (cases "result = None")
            case False
            then show ?thesis using c True Inr p r q by simp
          next
            case None: True
            have "backtrack_words cw a var ws (s2\<lparr>domains := domains s\<rparr>) \<noteq> Inl ValueError"
              using "3.IH"(2) [OF c True Inr [unfolded p] refl r [unfolded q] refl] None by simp
            then show ?thesis using c True Inr p r q None by simp
          qed
        qed
      qed
    qed
  qed
qed

text \<open>
  C10. Called with an assignment that covers every variable,
  \<open>select_unassigned_variable\<close> raises ValueError (\<open>min\<close> of no values) and returns no
  variable; with some variable unassigned it does not raise ValueError; and \<open>backtrack\<close>,
  which calls it only after \<open>assignment_complete\<close> has said no, never raises ValueError.
\<close>

theorem select_unassigned_variable_guarded:
  "(assignment_complete cw a \<longrightarrow> select_unassigned_variable cw a s = Inl ValueError) \<and>
   (\<not> assignment_complete cw a \<longrightarrow> select_unassigned_variable cw a s \<noteq> Inl ValueError) \<and>
   backtrack cw a s \<noteq> Inl ValueError"
  using select_complete_ValueError [of cw a s] select_incomplete_no_ValueError [of cw a s]
    backtrack_no_ValueError(1) [of cw a s]
  by blast

theorem select_unassigned_variable_guarded_witness:
  "assignment_complete scenario_a [(across_slot, ''dog''), (down_slot, ''frog'')] \<and>
   select_unassigned_variable scenario_a [(across_slot, ''dog''), (down_slot, ''frog'')]
     scenario_a_store = Inl ValueError \<and>
   \<not> assignment_complete scenario_a [] \<and>
   select_unassigned_variable scenario_a [] scenario_a_store \<noteq> Inl ValueError \<and>
   backtrack scenario_a [(across_slot, ''dog''), (down_slot, ''frog'')] scenario_a_store
     \<noteq> Inl ValueError"
proof -
  have c: "assignment_complete scenario_a [(across_slot, ''dog''), (down_slot, ''frog'')]"
    by (simp add: assignment_complete_def scenario_defs)
  have i: "\<not> assignment_complete scenario_a []"
    by (simp add: assignment_complete_def scenario_defs)
  show ?thesis
    using c i
      select_unassigned_variable_guarded
        [of scenario_a "[(across_slot, ''dog''), (down_slot, ''frog'')]" scenario_a_store]
      select_unassigned_variable_guarded [of scenario_a "[]" scenario_a_store]
    by simp
qed

section \<open>Well-formed crosswords\<close>

lemma wf_overlap_key:
  assumes "wf_crossword cw" and "map_of (overlaps cw) (x, y) = Some v"
  shows "x \<in> set (variables cw) \<and> y \<in> set (variables cw) \<and> x \<noteq> y"
proof -
  have "(x, y) \<in> set (map fst (overlaps cw))"
    using assms(2) by (force dest: map_of_SomeD)
  then show ?thesis using assms(1) unfolding wf_crossword_def by fastforce
qed

lemma wf_overlap_sym:
  assumes "wf_crossword cw" and "map_of (overlaps cw) (x, y) = Some (Some (i, j))"
  shows "map_of (overlaps cw) (y, x) = Some (Some (j, i)) \<and> i < var_length x \<and> j < var_length y"
proof -
  from wf_overlap_key [OF assms] have "x \<in> set (variables cw)" "y \<in> set (variables cw)" "x \<noteq> y"
    by auto
  then have "case map_of (overlaps cw) (x, y) of
           None \<Rightarrow> False
         | Some None \<Rightarrow> map_of (overlaps cw) (y, x) = Some None
         | Some (Some (i, j)) \<Rightarrow>
             i < var_length x \<and> j < var_length y \<and>
             map_of (overlaps cw) (y, x) = Some (Some (j, i))"
    using assms(1) unfolding wf_crossword_def by blast
  then show ?thesis using assms(2) by simp
qed

lemma neighbors_iff:
  assumes "wf_crossword cw"
  shows "n \<in> set (neighbors cw var) \<longleftrightarrow> (\<exists>p. map_of (overlaps cw) (var, n) = Some (Some p))"
proof
  assume "n \<in> set (neighbors cw var)"
  then obtain p where "map_of (overlaps cw) (n, var) = Some (Some p)"
    by (auto simp: neighbors_def overlapping_def split: option.splits)
  then show "\<exists>p. map_of (overlaps cw) (var, n) = Some (Some p)"
    using wf_overlap_sym [OF assms, of n var "fst p" "snd p"] by auto
next
  assume "\<exists>p. map_of (overlaps cw) (var, n) = Some (Some p)"
  then obtain p where p: "map_of (overlaps cw) (var, n) = Some (Some p)" by blast
  from wf_overlap_key [OF assms p] wf_overlap_sym [OF assms, of var n "fst p" "snd p"] p
  show "n \<in> set (neighbors cw var)"
    by (auto simp: neighbors_def overlapping_def)
qed

section \<open>What \<open>consistent\<close> decides\<close>

lemma consistent_neighbors_True:
  "consistent_neighbors cw a var w ns = Inr True \<longleftrightarrow>
     (\<forall>n\<in>set ns. \<forall>nw. map_of a n = Some nw \<longrightarrow>
        (\<exists>ov. map_of (overlaps cw) (var, n) = Some (Some ov) \<and> agree ov w nw))"
proof (induction ns)
  case Nil
  then show ?case by simp
next
  case (Cons n ns)
  show ?case
  proof (cases "map_of a n")
    case None
    then show ?thesis using Cons by simp
  next
    case (Some nw)
    then show ?thesis using Cons
      by (auto simp: overlap_lookup_def char_at_def agree_def split: option.splits)
  qed
qed

lemma consistent_items_Some:
  "consistent_items cw a items vs = Inr (Some r) \<longleftrightarrow>
     r = vs @ map snd items \<and>
     (\<forall>(var, w)\<in>set items.
        var_length var = length w \<and>
        consistent_neighbors cw a var w (neighbors cw var) = Inr True)"
proof (induction items arbitrary: vs)
  case Nil
  then show ?case by auto
next
  case (Cons p items)
  obtain var w where p: "p = (var, w)" by (cases p)
  show ?case unfolding p using Cons [of "vs @ [w]"]
    by (auto split: sum.splits)
qed

lemma consistent_True:
  "consistent cw a = Inr True \<longleftrightarrow>
     (\<forall>(var, w)\<in>set a.
        var_length var = length w \<and>
        consistent_neighbors cw a var w (neighbors cw var) = Inr True) \<and>
     distinct (map snd a)"
proof -
  have "consistent cw a = Inr True \<longleftrightarrow>
        (\<exists>r. consistent_items cw a a [] = Inr (Some r) \<and> card (set r) = length r)"
    by (auto simp: consistent_def split: sum.splits option.splits)
  also have "\<dots> \<longleftrightarrow> (\<forall>(var, w)\<in>set a.
        var_length var = length w \<and>
        consistent_neighbors cw a var w (neighbors cw var) = Inr True) \<and>
     card (set (map snd a)) = length (map snd a)"
    unfolding consistent_items_Some by auto
  also have "card (set (map snd a)) = length (map snd a) \<longleftrightarrow> distinct (map snd a)"
    using card_distinct distinct_card by blast
  finally show ?thesis .
qed

lemma consistent_True_valid:
  assumes "wf_crossword cw" and "distinct (map fst a)"
  shows "consistent cw a = Inr True \<longleftrightarrow> valid_assignment cw a"
proof -
  have look: "map_of a y = Some wy \<longleftrightarrow> (y, wy) \<in> set a" for y wy
    using assms(2) by simp
  have "(\<forall>(var, w)\<in>set a. consistent_neighbors cw a var w (neighbors cw var) = Inr True)
        \<longleftrightarrow> (\<forall>(x, wx)\<in>set a. \<forall>(y, wy)\<in>set a.
              (case map_of (overlaps cw) (x, y) of
                 Some (Some ov) \<Rightarrow> agree ov wx wy
               | _ \<Rightarrow> True))"
    (is "?code \<longleftrightarrow> ?spec")
  proof
    assume code: ?code
    show ?spec
    proof (clarify)
      fix x wx y wy
      assume x: "(x, wx) \<in> set a" and y: "(y, wy) \<in> set a"
      show "case map_of (overlaps cw) (x, y) of
                 Some (Some ov) \<Rightarrow> agree ov wx wy
               | _ \<Rightarrow> True"
      proof (cases "map_of (overlaps cw) (x, y)")
        case None
        then show ?thesis by simp
      next
        case (Some v)
        show ?thesis
        proof (cases v)
          case None
          then show ?thesis using Some by simp
        next
          case ov: (Some ov)
          have "y \<in> set (neighbors cw x)"
            using neighbors_iff [OF assms(1)] Some ov by blast
          moreover have "consistent_neighbors cw a x wx (neighbors cw x) = Inr True"
            using code x by blast
          ultimately have "\<exists>ov'. map_of (overlaps cw) (x, y) = Some (Some ov') \<and> agree ov' wx wy"
            using y look unfolding consistent_neighbors_True by blast
          then show ?thesis using Some ov by simp
        qed
      qed
    qed
  next
    assume spec: ?spec
    show ?code
    proof (clarify)
      fix var w
      assume v: "(var, w) \<in> set a"
      show "consistent_neighbors cw a var w (neighbors cw var) = Inr True"
        unfolding consistent_neighbors_True
      proof (intro ballI allI impI)
        fix n nw
        assume n: "n \<in> set (neighbors cw var)" and nw: "map_of a n = Some nw"
        from n obtain p where p: "map_of (overlaps cw) (var, n) = Some (Some p)"
          using neighbors_iff [OF assms(1)] by blast
        have "(n, nw) \<in> set a" using nw look by simp
        then have "case map_of (overlaps cw) (var, n) of
                 Some (Some ov) \<Rightarrow> agree ov w nw
               | _ \<Rightarrow> True"
          using spec v by blast
        then show "\<exists>ov. map_of (overlaps cw) (var, n) = Some (Some ov) \<and> agree ov w nw"
          using p by simp
      qed
    qed
  qed
  then show ?thesis
    unfolding consistent_True valid_assignment_def by (auto simp: case_prod_beta) 
qed

text \<open>
  C8. For a well-formed crossword and an assignment (a dictionary: no variable twice),
  \<open>consistent\<close> returns True if and only if the assignment is valid.
\<close>

theorem consistent_iff_valid:
  assumes "wf_crossword cw" and "distinct (map fst a)"
  shows "consistent cw a = Inr True \<longleftrightarrow> valid_assignment cw a"
proof
  assume "consistent cw a = Inr True"
  then show "valid_assignment cw a" using consistent_True_valid [OF assms] by simp
next
  assume "valid_assignment cw a"
  then show "consistent cw a = Inr True" using consistent_True_valid [OF assms] by simp
qed

lemma wf_scenario_a: "wf_crossword scenario_a"
  by (simp add: wf_crossword_def scenario_defs)

theorem consistent_iff_valid_witness:
  "wf_crossword scenario_a \<and>
   consistent scenario_a [(across_slot, ''dog''), (down_slot, ''frog'')] = Inr True \<and>
   valid_assignment scenario_a [(across_slot, ''dog''), (down_slot, ''frog'')] \<and>
   consistent scenario_a [(across_slot, ''cat''), (down_slot, ''frog'')] \<noteq> Inr True \<and>
   \<not> valid_assignment scenario_a [(across_slot, ''cat''), (down_slot, ''frog'')]"
proof -
  have d1: "distinct (map fst [(across_slot, ''dog''), (down_slot, ''frog'')])"
    and d2: "distinct (map fst [(across_slot, ''cat''), (down_slot, ''frog'')])"
    by (simp_all add: scenario_defs)
  have v1: "valid_assignment scenario_a [(across_slot, ''dog''), (down_slot, ''frog'')]"
    by (simp add: valid_assignment_def agree_def scenario_defs)
  have v2: "\<not> valid_assignment scenario_a [(across_slot, ''cat''), (down_slot, ''frog'')]"
    by (simp add: valid_assignment_def agree_def scenario_defs)
  show ?thesis
    using consistent_iff_valid [OF wf_scenario_a d1] consistent_iff_valid [OF wf_scenario_a d2]
      v1 v2 wf_scenario_a
    by simp
qed

section \<open>Value ordering\<close>

lemma ruled_out_choices_count:
  assumes "fst ov < length w" and "\<forall>c\<in>set pcs. snd ov < length c"
  shows "\<exists>c'. ruled_out_choices w (Some ov) pcs counts = Inr c' \<and>
           (\<forall>u. c' u = (if u = w then counts u + length (filter (\<lambda>c. \<not> agree ov w c) pcs)
                         else counts u))"
  using assms(2)
proof (induction pcs arbitrary: counts)
  case Nil
  then show ?case by simp
next
  case (Cons pc pcs)
  let ?counts = "if w ! fst ov \<noteq> pc ! snd ov then counts(w := counts w + 1) else counts"
  from Cons.IH [of ?counts] Cons.prems
  obtain c' where c': "ruled_out_choices w (Some ov) pcs ?counts = Inr c'"
    "\<forall>u. c' u = (if u = w then ?counts u + length (filter (\<lambda>c. \<not> agree ov w c) pcs)
                         else ?counts u)"
    by auto
  have "ruled_out_choices w (Some ov) (pc # pcs) counts = Inr c'"
    using c'(1) assms(1) Cons.prems by (simp add: char_at_def)
  moreover have "\<forall>u. c' u = (if u = w then counts u + length (filter (\<lambda>c. \<not> agree ov w c) (pc # pcs))
                         else counts u)"
    using c'(2) assms(1) Cons.prems by (auto simp: agree_def)
  ultimately show ?case by blast
qed

lemma ruled_out_neighbors_count:
  assumes "\<forall>n\<in>set ns. map_of (domains s) n \<noteq> None \<and>
             (\<exists>ov. map_of (overlaps cw) (var, n) = Some (Some ov) \<and> fst ov < length w \<and>
                    (\<forall>c\<in>set (domain_words s n). snd ov < length c))"
  shows "\<exists>c'. ruled_out_neighbors cw s var w ns counts = Inr c' \<and>
           (\<forall>u. c' u = (if u = w then counts u + sum_list (map (eliminated_in cw s var w) ns)
                         else counts u))"
  using assms
proof (induction ns arbitrary: counts)
  case Nil
  then show ?case by simp
next
  case (Cons n ns)
  from Cons.prems obtain b ov where b: "map_of (domains s) n = Some b"
    and ov: "map_of (overlaps cw) (var, n) = Some (Some ov)" "fst ov < length w"
      "\<forall>c\<in>set (domain_words s n). snd ov < length c"
    by auto
  have dw: "domain_words s n = heap s b" using b by (simp add: domain_words_def)
  from ruled_out_choices_count [OF ov(2) ov(3), of counts]
  obtain c1 where c1: "ruled_out_choices w (Some ov) (heap s b) counts = Inr c1"
    "\<forall>u. c1 u = (if u = w then counts u + length (filter (\<lambda>c. \<not> agree ov w c) (heap s b))
                         else counts u)"
    unfolding dw by blast
  from Cons.IH [of c1] Cons.prems
  obtain c' where c': "ruled_out_neighbors cw s var w ns c1 = Inr c'"
    "\<forall>u. c' u = (if u = w then c1 u + sum_list (map (eliminated_in cw s var w) ns) else c1 u)"
    by auto
  have "ruled_out_neighbors cw s var w (n # ns) counts = Inr c'"
    using b ov(1) c1(1) c'(1) by (simp add: overlap_lookup_def domain_of_def)
  moreover have "\<forall>u. c' u = (if u = w
      then counts u + sum_list (map (eliminated_in cw s var w) (n # ns)) else counts u)"
    using c'(2) c1(2) ov(1) dw by (simp add: eliminated_in_def)
  ultimately show ?case by blast
qed

lemma ruled_out_words_count:
  assumes "distinct ws"
    and "\<forall>w\<in>set ws. \<forall>n\<in>set ns. map_of (domains s) n \<noteq> None \<and>
             (\<exists>ov. map_of (overlaps cw) (var, n) = Some (Some ov) \<and> fst ov < length w \<and>
                    (\<forall>c\<in>set (domain_words s n). snd ov < length c))"
  shows "\<exists>c'. ruled_out_words cw s var ns ws counts = Inr c' \<and>
           (\<forall>u. c' u = (if u \<in> set ws
                         then counts u + sum_list (map (eliminated_in cw s var u) ns)
                         else counts u))"
  using assms
proof (induction ws arbitrary: counts)
  case Nil
  then show ?case by simp
next
  case (Cons w ws)
  have "\<forall>n\<in>set ns. map_of (domains s) n \<noteq> None \<and>
             (\<exists>ov. map_of (overlaps cw) (var, n) = Some (Some ov) \<and> fst ov < length w \<and>
                    (\<forall>c\<in>set (domain_words s n). snd ov < length c))"
    using Cons.prems(2) by simp
  from ruled_out_neighbors_count [OF this, of counts]
  obtain c1 where c1: "ruled_out_neighbors cw s var w ns counts = Inr c1"
    "\<forall>u. c1 u = (if u = w then counts u + sum_list (map (eliminated_in cw s var w) ns)
                         else counts u)"
    by blast
  from Cons.IH [of c1] Cons.prems
  obtain c' where c': "ruled_out_words cw s var ns ws c1 = Inr c'"
    "\<forall>u. c' u = (if u \<in> set ws then c1 u + sum_list (map (eliminated_in cw s var u) ns)
                  else c1 u)"
    by auto
  have "ruled_out_words cw s var ns (w # ws) counts = Inr c'"
    using c1(1) c'(1) by simp
  moreover have "\<forall>u. c' u = (if u \<in> set (w # ws)
                         then counts u + sum_list (map (eliminated_in cw s var u) ns)
                         else counts u)"
    using c'(2) c1(2) Cons.prems(1) by auto
  ultimately show ?case by blast
qed

lemma neighbors_subset: "set (neighbors cw var) \<subseteq> set (variables cw)"
  by (auto simp: neighbors_def)

lemma wf_creator_domain:
  "wf_creator cw s \<Longrightarrow> v \<in> set (variables cw) \<Longrightarrow> map_of (domains s) v \<noteq> None"
  by (metis wf_creator_def map_of_eq_None_iff set_map)

text \<open>
  C7. For a well-formed crossword and creator with a node-consistent store, and a
  variable \<open>var\<close> of the crossword, \<open>order_domain_values\<close> returns a list with exactly the
  words of \<open>domain(var)\<close>, each once, in ascending order of eliminated-count. It is a
  function of the creator and returns no new one: it changes no domain.
\<close>

theorem order_domain_values_sorted_permutation:
  assumes "wf_crossword cw" and "wf_creator cw s" and "node_consistent cw s"
    and "var \<in> set (variables cw)"
  shows "\<exists>ws. order_domain_values cw var a s = Inr ws \<and>
           mset ws = mset (domain_words s var) \<and> distinct ws \<and>
           sorted (map (eliminated cw s a var) ws)"
proof -
  let ?ns = "filter (\<lambda>v. map_of a v = None) (neighbors cw var)"
  let ?d = "domain_words s var"
  from wf_creator_domain [OF assms(2,4)] obtain b where b: "map_of (domains s) var = Some b"
    by auto
  have dw: "domain_of s var = Inr ?d" using b by (rule domain_of_words)
  have dist: "distinct ?d"
    using assms(2) b wf_store_distinct [of s var b] by (simp add: wf_creator_def domain_words_def)
  have pre: "\<forall>w\<in>set ?d. \<forall>n\<in>set ?ns. map_of (domains s) n \<noteq> None \<and>
             (\<exists>ov. map_of (overlaps cw) (var, n) = Some (Some ov) \<and> fst ov < length w \<and>
                    (\<forall>c\<in>set (domain_words s n). snd ov < length c))"
  proof (intro ballI conjI)
    fix w n
    assume w: "w \<in> set ?d" and "n \<in> set ?ns"
    then have n: "n \<in> set (neighbors cw var)" by simp
    then have nv: "n \<in> set (variables cw)" using neighbors_subset by blast
    show "map_of (domains s) n \<noteq> None" using assms(2) nv by (rule wf_creator_domain)
    from n obtain p where p: "map_of (overlaps cw) (var, n) = Some (Some p)"
      using neighbors_iff [OF assms(1)] by blast
    from wf_overlap_sym [OF assms(1), of var n "fst p" "snd p"] p
    have bounds: "fst p < var_length var" "snd p < var_length n" by auto
    have "fst p < length w" using bounds(1) assms(3,4) w by (simp add: node_consistent_def)
    moreover have "\<forall>c\<in>set (domain_words s n). snd p < length c"
      using bounds(2) assms(3) nv by (simp add: node_consistent_def)
    ultimately show "\<exists>ov. map_of (overlaps cw) (var, n) = Some (Some ov) \<and> fst ov < length w \<and>
                    (\<forall>c\<in>set (domain_words s n). snd ov < length c)"
      using p by blast
  qed
  from ruled_out_words_count [OF dist pre, of "\<lambda>w. 0"]
  obtain c' where c': "ruled_out_words cw s var ?ns ?d (\<lambda>w. 0) = Inr c'"
    "\<forall>u. c' u = (if u \<in> set ?d then 0 + sum_list (map (eliminated_in cw s var u) ?ns) else 0)"
    by blast
  have run: "order_domain_values cw var a s = Inr (sort_key c' ?d)"
    using dw c'(1) by (simp add: order_domain_values_def)
  have eq: "map (eliminated cw s a var) (sort_key c' ?d) = map c' (sort_key c' ?d)"
    using c'(2) by (intro map_cong) (auto simp: eliminated_def)
  have "sorted (map (eliminated cw s a var) (sort_key c' ?d))"
    unfolding eq by (rule sorted_sort_key)
  then show ?thesis using run dist by (intro exI [of _ "sort_key c' ?d"]) simp
qed

lemma order_domain_values_scenario_a:
  "order_domain_values scenario_a across_slot [] scenario_a_store = Inr [''dog'', ''cat'']"
  by code_simp

lemma wf_creator_scenario_a_store: "wf_creator scenario_a scenario_a_store"
  by (simp add: wf_creator_def wf_store_def scenario_defs)

lemma node_consistent_scenario_a_store: "node_consistent scenario_a scenario_a_store"
  by (simp add: node_consistent_def domain_words_def scenario_defs)

theorem order_domain_values_sorted_permutation_witness:
  "wf_crossword scenario_a \<and> wf_creator scenario_a scenario_a_store \<and>
   node_consistent scenario_a scenario_a_store \<and>
   order_domain_values scenario_a across_slot [] scenario_a_store = Inr [''dog'', ''cat''] \<and>
   mset [''dog'', ''cat''] = mset (domain_words scenario_a_store across_slot) \<and>
   sorted (map (eliminated scenario_a scenario_a_store [] across_slot) [''dog'', ''cat''])"
proof -
  have v: "across_slot \<in> set (variables scenario_a)" by (simp add: scenario_defs)
  from order_domain_values_sorted_permutation
    [OF wf_scenario_a wf_creator_scenario_a_store node_consistent_scenario_a_store v, of "[]"]
  obtain ws where ws: "order_domain_values scenario_a across_slot [] scenario_a_store = Inr ws"
    "mset ws = mset (domain_words scenario_a_store across_slot)"
    "sorted (map (eliminated scenario_a scenario_a_store [] across_slot) ws)"
    by blast
  have "ws = [''dog'', ''cat'']" using ws(1) order_domain_values_scenario_a by simp
  then show ?thesis
    using ws wf_scenario_a wf_creator_scenario_a_store node_consistent_scenario_a_store
    by simp
qed

section \<open>Arc consistency: what \<open>ac3\<close> computes\<close>

lemma requeue_list:
  "\<exists>q'. requeue x ns (ArcList q) = Inr (ArcList q') \<and>
         set q' = set q \<union> (\<lambda>n. (x, n)) ` set ns \<union> (\<lambda>n. (n, x)) ` set ns"
proof (induction ns arbitrary: q)
  case Nil
  then show ?case by simp
next
  case (Cons n ns)
  define q1 where "q1 = (if (x, n) \<notin> set q then q @ [(x, n)] else q)"
  define q2 where "q2 = (if (n, x) \<notin> set q1 then q1 @ [(n, x)] else q1)"
  have step: "requeue x (n # ns) (ArcList q) = requeue x ns (ArcList q2)"
    by (simp add: q1_def q2_def)
  have s1: "set q1 = insert (x, n) (set q)"
    by (cases "(x, n) \<in> set q") (simp_all add: q1_def insert_absorb)
  have "set q2 = insert (n, x) (set q1)"
    by (cases "(n, x) \<in> set q1") (simp_all add: q2_def insert_absorb)
  then have s2: "set q2 = set q \<union> {(x, n), (n, x)}" using s1 by blast
  from Cons [of q2] obtain q' where "requeue x ns (ArcList q2) = Inr (ArcList q')"
    "set q' = set q2 \<union> (\<lambda>n. (x, n)) ` set ns \<union> (\<lambda>n. (n, x)) ` set ns" by blast
  then show ?case using step s2 by auto
qed

lemma ac3_step:
  assumes wf: "wf_crossword cw" and inv: "ac3_inv cw q s" and ne: "q \<noteq> []"
    and xy: "last q = (x, y)"
  shows "\<exists>p r s1. map_of (overlaps cw) (x, y) = Some (Some p) \<and>
           revise cw x y s = Inr (r, s1) \<and> domains s1 = domains s \<and>
           backtrack_calls s1 = backtrack_calls s \<and>
           wf_creator cw s1 \<and> node_consistent cw s1 \<and>
           (\<forall>v. v \<noteq> x \<longrightarrow> domain_words s1 v = domain_words s v) \<and>
           set (domain_words s1 x) \<subseteq> set (domain_words s x) \<and>
           (r \<longleftrightarrow> domain_words s1 x \<noteq> domain_words s x) \<and>
           x \<noteq> y \<and> x \<in> set (variables cw) \<and> arc_ok s1 x y p"
proof -
  have "(x, y) \<in> set q" using ne xy by (metis last_in_set)
  then obtain p where p: "map_of (overlaps cw) (x, y) = Some (Some p)"
    using inv unfolding ac3_inv_def by blast
  from wf_overlap_key [OF wf p] have xv: "x \<in> set (variables cw)"
    and yv: "y \<in> set (variables cw)" and neq: "x \<noteq> y" by auto
  from wf_overlap_sym [OF wf, of x y "fst p" "snd p"] p
  have bounds: "fst p < var_length x" "snd p < var_length y" by auto
  have wfc: "wf_creator cw s" and nc: "node_consistent cw s"
    using inv by (auto simp: ac3_inv_def)
  have wfs: "wf_store s" using wfc by (simp add: wf_creator_def)
  have bx: "\<forall>w\<in>set (domain_words s x). fst p < length w"
    using nc xv bounds(1) by (simp add: node_consistent_def)
  have "by": "\<forall>w\<in>set (domain_words s y). snd p < length w"
    using nc yv bounds(2) by (simp add: node_consistent_def)
  have ov: "overlap_lookup cw x y = Inr (Some p)" using p by (simp add: overlap_lookup_def)
  from revise_step [OF wfs ov neq wf_creator_domain [OF wfc xv] wf_creator_domain [OF wfc yv] bx "by"]
  obtain r s1 where r: "revise cw x y s = Inr (r, s1)" "domains s1 = domains s"
    "backtrack_calls s1 = backtrack_calls s" "wf_store s1"
    "domain_words s1 x = filter (supported p (domain_words s y)) (domain_words s x)"
    "\<forall>v. v \<noteq> x \<longrightarrow> domain_words s1 v = domain_words s v"
    "r \<longleftrightarrow> domain_words s1 x \<noteq> domain_words s x"
    by blast
  have wfc1: "wf_creator cw s1" using wfc r(2,4) by (simp add: wf_creator_def)
  have sub: "set (domain_words s1 x) \<subseteq> set (domain_words s x)" using r(5) by auto
  have nc1: "node_consistent cw s1"
    unfolding node_consistent_def
  proof (intro ballI)
    fix v w assume "v \<in> set (variables cw)" "w \<in> set (domain_words s1 v)"
    then show "length w = var_length v"
      using nc sub r(6) unfolding node_consistent_def by (cases "v = x") auto
  qed
  have ok: "arc_ok s1 x y p"
    using r(5,6) neq by (auto simp: arc_ok_def)
  show ?thesis
    apply (rule exI [of _ p], rule exI [of _ r], rule exI [of _ s1])
    using p r(1,2,3,6,7) wfc1 nc1 sub neq xv ok by simp
qed

lemma ac3_inv_not_revised:
  assumes inv: "ac3_inv cw q s" and ne: "q \<noteq> []" and xy: "last q = (x, y)"
    and wfc1: "wf_creator cw s1" and nc1: "node_consistent cw s1"
    and same: "\<forall>v. domain_words s1 v = domain_words s v"
    and p: "map_of (overlaps cw) (x, y) = Some (Some p)"
    and ok: "arc_ok s1 x y p"
  shows "ac3_inv cw (butlast q) s1"
  unfolding ac3_inv_def
proof (intro conjI allI impI)
  show "wf_creator cw s1" "node_consistent cw s1" by fact+
  show "\<forall>(x, y)\<in>set (butlast q). \<exists>p. map_of (overlaps cw) (x, y) = Some (Some p)"
    using inv unfolding ac3_inv_def by (meson in_set_butlastD)
next
  fix u v p'
  assume ov: "map_of (overlaps cw) (u, v) = Some (Some p')" and notin: "(u, v) \<notin> set (butlast q)"
  show "arc_ok s1 u v p'"
  proof (cases "(u, v) = (x, y)")
    case True
    then show ?thesis using ok p ov by simp
  next
    case False
    have "q = butlast q @ [(x, y)]" using ne xy by (metis append_butlast_last_id)
    then have "set q = set (butlast q @ [(x, y)])" by simp
    then have "set q = insert (x, y) (set (butlast q))" by simp
    then have "(u, v) \<notin> set q" using notin False by simp
    then have "arc_ok s u v p'" using inv ov unfolding ac3_inv_def by blast
    then show ?thesis using same by (simp add: arc_ok_def)
  qed
qed

lemma ac3_inv_revised:
  assumes wf: "wf_crossword cw" and inv: "ac3_inv cw q s" and ne: "q \<noteq> []"
    and xy: "last q = (x, y)"
    and wfc1: "wf_creator cw s1" and nc1: "node_consistent cw s1"
    and other: "\<forall>v. v \<noteq> x \<longrightarrow> domain_words s1 v = domain_words s v"
    and q2: "\<And>u v. (u, v) \<in> set q2 \<longleftrightarrow>
               (u, v) \<in> set (butlast q) \<or> (u = x \<and> v \<in> set (neighbors cw x)) \<or>
               (v = x \<and> u \<in> set (neighbors cw x))"
  shows "ac3_inv cw q2 s1"
proof -
  have qset: "set q = insert (x, y) (set (butlast q))"
  proof -
    have "q = butlast q @ [(x, y)]" using ne xy by (metis append_butlast_last_id)
    then have "set q = set (butlast q @ [(x, y)])" by simp
    then show ?thesis by simp
  qed
  have queued: "\<exists>p. map_of (overlaps cw) (u, v) = Some (Some p)" if "(u, v) \<in> set q2" for u v
  proof -
    from that q2 [of u v] consider "(u, v) \<in> set (butlast q)"
      | "u = x \<and> v \<in> set (neighbors cw x)" | "v = x \<and> u \<in> set (neighbors cw x)"
      by blast
    then show ?thesis
    proof cases
      case 1
      then have "(u, v) \<in> set q" using qset by simp
      then show ?thesis using inv unfolding ac3_inv_def by blast
    next
      case 2
      then show ?thesis using neighbors_iff [OF wf, of v x] by simp
    next
      case 3
      then obtain p where "map_of (overlaps cw) (x, u) = Some (Some p)"
        using neighbors_iff [OF wf, of u x] by blast
      then have "map_of (overlaps cw) (u, x) = Some (Some (snd p, fst p))"
        using wf_overlap_sym [OF wf, of x u "fst p" "snd p"] by simp
      then show ?thesis using 3 by simp
    qed
  qed
  have unqueued: "arc_ok s1 u v p'"
    if ov: "map_of (overlaps cw) (u, v) = Some (Some p')" and notin: "(u, v) \<notin> set q2"
    for u v p'
  proof -
    have ux: "u \<noteq> x"
    proof
      assume e: "u = x"
      then have "v \<in> set (neighbors cw x)" using neighbors_iff [OF wf, of v x] ov by simp
      then show False using notin q2 [of u v] e by simp
    qed
    have vx: "v \<noteq> x"
    proof
      assume e: "v = x"
      have "map_of (overlaps cw) (v, u) = Some (Some (snd p', fst p'))"
        using wf_overlap_sym [OF wf, of u v "fst p'" "snd p'"] ov by simp
      then have "u \<in> set (neighbors cw x)" using neighbors_iff [OF wf, of u x] e by simp
      then show False using notin q2 [of u v] e by simp
    qed
    have "(u, v) \<notin> set (butlast q)" using notin q2 [of u v] by simp
    then have "(u, v) \<notin> set q" using qset ux by simp
    then have "arc_ok s u v p'" using inv ov unfolding ac3_inv_def by blast
    then show ?thesis using other ux vx by (simp add: arc_ok_def)
  qed
  show ?thesis
    unfolding ac3_inv_def
    using wfc1 nc1 queued unqueued by (intro conjI) auto
qed

lemma requeue_list_mem:
  "\<exists>q'. requeue x ns (ArcList q) = Inr (ArcList q') \<and>
         (\<forall>u v. (u, v) \<in> set q' \<longleftrightarrow>
            (u, v) \<in> set q \<or> (u = x \<and> v \<in> set ns) \<or> (v = x \<and> u \<in> set ns))"
proof -
  from requeue_list [of x ns q] obtain q' where q': "requeue x ns (ArcList q) = Inr (ArcList q')"
    "set q' = set q \<union> (\<lambda>n. (x, n)) ` set ns \<union> (\<lambda>n. (n, x)) ` set ns" by blast
  have "(u, v) \<in> set q' \<longleftrightarrow>
            (u, v) \<in> set q \<or> (u = x \<and> v \<in> set ns) \<or> (v = x \<and> u \<in> set ns)" for u v
    unfolding q'(2) by (simp add: image_iff) blast
  then show ?thesis using q'(1) by blast
qed

lemma ac3_post_step:
  assumes other: "\<forall>v. v \<noteq> x \<longrightarrow> domain_words s1 v = domain_words s v"
    and sub: "set (domain_words s1 x) \<subseteq> set (domain_words s x)"
    and nonempty: "domain_words s1 x \<noteq> domain_words s x \<longrightarrow> domain_words s1 x \<noteq> []"
    and same: "domains s1 = domains s" "backtrack_calls s1 = backtrack_calls s"
    and post: "ac3_post cw s1 b s'"
  shows "ac3_post cw s b s'"
proof -
  have sub1: "set (domain_words s1 v) \<subseteq> set (domain_words s v)" for v
    using other sub by (cases "v = x") auto
  have sub': "set (domain_words s' v) \<subseteq> set (domain_words s1 v)" for v
    using post by (simp add: ac3_post_def)
  have subset: "\<forall>v. set (domain_words s' v) \<subseteq> set (domain_words s v)"
    using sub1 sub' by blast
  have kept: "domain_words s1 v = [] \<Longrightarrow> domain_words s v \<noteq> [] \<Longrightarrow> False" for v
    using other nonempty by (cases "v = x") auto
  have t: "\<forall>v. domain_words s' v \<noteq> domain_words s v \<longrightarrow> domain_words s' v \<noteq> []"
    if b and p: "\<forall>v. domain_words s' v \<noteq> domain_words s1 v \<longrightarrow> domain_words s' v \<noteq> []"
  proof (intro allI impI)
    fix v assume ch: "domain_words s' v \<noteq> domain_words s v"
    show "domain_words s' v \<noteq> []"
    proof (cases "domain_words s' v = domain_words s1 v")
      case True
      then show ?thesis using ch kept [of v] by auto
    next
      case False
      then show ?thesis using p by simp
    qed
  qed
  have f: "\<exists>x. domain_words s x \<noteq> [] \<and> domain_words s' x = [] \<and>
                   (\<forall>v. domain_words s v \<noteq> [] \<and> domain_words s' v = [] \<longrightarrow> v = x)"
    if x0: "domain_words s1 x0 \<noteq> []" "domain_words s' x0 = []"
      "\<forall>v. domain_words s1 v \<noteq> [] \<and> domain_words s' v = [] \<longrightarrow> v = x0" for x0
  proof (intro exI [of _ x0] conjI allI impI)
    show "domain_words s x0 \<noteq> []" using x0(1) sub1 [of x0] by auto
    show "domain_words s' x0 = []" by fact
    fix v assume v: "domain_words s v \<noteq> [] \<and> domain_words s' v = []"
    then have "domain_words s1 v \<noteq> []" using kept [of v] by blast
    then show "v = x0" using x0(3) v by blast
  qed
  show ?thesis
    unfolding ac3_post_def
  proof (intro conjI)
    show "wf_creator cw s'" "node_consistent cw s'" using post by (simp_all add: ac3_post_def)
    show "backtrack_calls s' = backtrack_calls s" "domains s' = domains s"
      using post same by (simp_all add: ac3_post_def)
    show "\<forall>v. set (domain_words s' v) \<subseteq> set (domain_words s v)" by (rule subset)
    show "b \<longrightarrow> (\<forall>x y p. map_of (overlaps cw) (x, y) = Some (Some p) \<longrightarrow> arc_ok s' x y p) \<and>
            (\<forall>v. domain_words s' v \<noteq> domain_words s v \<longrightarrow> domain_words s' v \<noteq> [])"
      using post t unfolding ac3_post_def by blast
    show "\<not> b \<longrightarrow> (\<exists>x. domain_words s x \<noteq> [] \<and> domain_words s' x = [] \<and>
                   (\<forall>v. domain_words s v \<noteq> [] \<and> domain_words s' v = [] \<longrightarrow> v = x))"
    proof
      assume "\<not> b"
      then obtain x0 where "domain_words s1 x0 \<noteq> []" "domain_words s' x0 = []"
        "\<forall>v. domain_words s1 v \<noteq> [] \<and> domain_words s' v = [] \<longrightarrow> v = x0"
        using post unfolding ac3_post_def by blast
      then show "\<exists>x. domain_words s x \<noteq> [] \<and> domain_words s' x = [] \<and>
                   (\<forall>v. domain_words s v \<noteq> [] \<and> domain_words s' v = [] \<longrightarrow> v = x)"
        by (rule f)
    qed
  qed
qed

lemma ac3_post_refl:
  assumes "ac3_inv cw [] s"
  shows "ac3_post cw s True s"
  using assms unfolding ac3_post_def ac3_inv_def by simp

lemma ac3_loop_unfold:
  assumes "q \<noteq> []" and "last q = (x, y)"
  shows "ac3_loop cw (ArcList q) s =
     (case revise cw x y s of
        Inl e \<Rightarrow> Inl e
      | Inr (revised, s1) \<Rightarrow>
          if revised then
            (case domain_of s1 x of
               Inl e \<Rightarrow> Inl e
             | Inr d \<Rightarrow>
                 if length d = 0 then Inr (False, s1)
                 else
                   (case requeue x (neighbors cw x) (ArcList (butlast q)) of
                      Inl e \<Rightarrow> Inl e
                    | Inr queue2 \<Rightarrow> ac3_loop cw queue2 s1))
          else ac3_loop cw (ArcList (butlast q)) s1)"
proof -
  have pop: "queue_pop (ArcList q) = ((x, y), ArcList (butlast q))"
    using assms(2) by simp
  have len: "0 < queue_len (ArcList q)" using assms(1) by (simp add: queue_len_def)
  show ?thesis
    by (subst ac3_loop.simps) (simp only: pop len if_True fst_conv snd_conv)
qed

lemma ac3_loop_correct:
  "wf_crossword cw \<Longrightarrow> ac3_inv cw q s \<Longrightarrow>
     \<exists>b s'. ac3_loop cw (ArcList q) s = Inr (b, s') \<and> ac3_post cw s b s'"
proof (induction cw "ArcList q" s arbitrary: q rule: ac3_loop.induct)
  case (1 cw s q)
  note wf = "1.prems"(1) and inv = "1.prems"(2)
  show ?case
  proof (cases "q = []")
    case True
    then have "ac3_loop cw (ArcList q) s = Inr (True, s)"
      by (subst ac3_loop.simps) (simp add: queue_len_def)
    then show ?thesis using ac3_post_refl inv True by blast
  next
    case False
    obtain x y where xy: "last q = (x, y)" by (cases "last q")
    from ac3_step [OF wf inv False xy]
    obtain p r s1 where st: "map_of (overlaps cw) (x, y) = Some (Some p)"
      "revise cw x y s = Inr (r, s1)" "domains s1 = domains s"
      "backtrack_calls s1 = backtrack_calls s"
      "wf_creator cw s1" "node_consistent cw s1"
      "\<forall>v. v \<noteq> x \<longrightarrow> domain_words s1 v = domain_words s v"
      "set (domain_words s1 x) \<subseteq> set (domain_words s x)"
      "r \<longleftrightarrow> domain_words s1 x \<noteq> domain_words s x"
      "x \<noteq> y" "x \<in> set (variables cw)" "arc_ok s1 x y p"
      by blast
    have len: "0 < queue_len (ArcList q)" using False by (simp add: queue_len_def)
    have pop: "fst (fst (queue_pop (ArcList q))) = x" "snd (fst (queue_pop (ArcList q))) = y"
      "snd (queue_pop (ArcList q)) = ArcList (butlast q)"
      using xy by simp_all
    have rev: "revise cw (fst (fst (queue_pop (ArcList q)))) (snd (fst (queue_pop (ArcList q)))) s
               = Inr (r, s1)"
      unfolding pop using st(2) .
    have dx: "domain_of s1 x = Inr (domain_words s1 x)"
      using wf_creator_domain [OF st(5) st(11)] by (auto intro: domain_of_words)
    show ?thesis
    proof (cases r)
      case nr: False
      then have same: "\<forall>v. domain_words s1 v = domain_words s v" using st(7,9) by metis
      have inv1: "ac3_inv cw (butlast q) s1"
        using inv False xy st(5,6) same st(1,12) by (rule ac3_inv_not_revised)
      from "1.hyps"(2) [OF len rev refl, of "butlast q"] nr pop(3) wf inv1
      obtain b s' where r': "ac3_loop cw (ArcList (butlast q)) s1 = Inr (b, s')"
        "ac3_post cw s1 b s'" by auto
      have "ac3_loop cw (ArcList q) s = Inr (b, s')"
        by (simp add: ac3_loop_unfold [OF False xy] st(2) nr r'(1))
      moreover have "ac3_post cw s b s'"
        using st(7,8) _ st(3,4) r'(2)
      proof (rule ac3_post_step)
        show "domain_words s1 x \<noteq> domain_words s x \<longrightarrow> domain_words s1 x \<noteq> []"
          using same by simp
      qed
      ultimately show ?thesis by blast
    next
      case rv: True
      show ?thesis
      proof (cases "domain_words s1 x = []")
        case emp: True
        have run: "ac3_loop cw (ArcList q) s = Inr (False, s1)"
          by (simp add: ac3_loop_unfold [OF False xy] st(2) rv dx emp)
        have "ac3_post cw s False s1"
          unfolding ac3_post_def
        proof (intro conjI)
          show "wf_creator cw s1" "node_consistent cw s1" by fact+
          show "backtrack_calls s1 = backtrack_calls s" "domains s1 = domains s" by fact+
          show "\<forall>v. set (domain_words s1 v) \<subseteq> set (domain_words s v)"
            using st(7,8) by (metis subset_refl)
          show "False \<longrightarrow> (\<forall>x y p. map_of (overlaps cw) (x, y) = Some (Some p) \<longrightarrow> arc_ok s1 x y p) \<and>
            (\<forall>v. domain_words s1 v \<noteq> domain_words s v \<longrightarrow> domain_words s1 v \<noteq> [])"
            by simp
          have "domain_words s x \<noteq> []" using st(9) rv emp by auto
          moreover have "\<forall>v. domain_words s v \<noteq> [] \<and> domain_words s1 v = [] \<longrightarrow> v = x"
            using st(7) by metis
          ultimately show "\<not> False \<longrightarrow> (\<exists>x. domain_words s x \<noteq> [] \<and> domain_words s1 x = [] \<and>
                   (\<forall>v. domain_words s v \<noteq> [] \<and> domain_words s1 v = [] \<longrightarrow> v = x))"
            using emp by blast
        qed
        then show ?thesis using run by blast
      next
        case nemp: False
        from requeue_list_mem [of x "neighbors cw x" "butlast q"]
        obtain q2 where q2: "requeue x (neighbors cw x) (ArcList (butlast q)) = Inr (ArcList q2)"
          "\<forall>u v. (u, v) \<in> set q2 \<longleftrightarrow>
            (u, v) \<in> set (butlast q) \<or> (u = x \<and> v \<in> set (neighbors cw x)) \<or>
            (v = x \<and> u \<in> set (neighbors cw x))"
          by blast
        have inv2: "ac3_inv cw q2 s1"
          by (rule ac3_inv_revised [OF wf inv False xy st(5) st(6) st(7)])
            (rule q2(2) [rule_format])
        have dx': "domain_of s1 (fst (fst (queue_pop (ArcList q)))) = Inr (domain_words s1 x)"
          unfolding pop using dx .
        have rq: "requeue (fst (fst (queue_pop (ArcList q))))
                    (neighbors cw (fst (fst (queue_pop (ArcList q)))))
                    (snd (queue_pop (ArcList q))) = Inr (ArcList q2)"
          unfolding pop using q2(1) .
        have ln: "length (domain_words s1 x) \<noteq> 0" using nemp by simp
        from "1.hyps"(1) [OF len rev refl rv dx' ln rq wf inv2]
        obtain b s' where r': "ac3_loop cw (ArcList q2) s1 = Inr (b, s')"
          "ac3_post cw s1 b s'" by auto
        have "ac3_loop cw (ArcList q) s = Inr (b, s')"
          by (simp add: ac3_loop_unfold [OF False xy] st(2) rv dx nemp q2(1) r'(1))
        moreover have "ac3_post cw s b s'"
          using st(7,8) _ st(3,4) r'(2)
        proof (rule ac3_post_step)
          show "domain_words s1 x \<noteq> domain_words s x \<longrightarrow> domain_words s1 x \<noteq> []"
            using nemp by simp
        qed
        ultimately show ?thesis by blast
      qed
    qed
  qed
qed

lemma ac3_inv_initial:
  assumes "wf_crossword cw" and "wf_creator cw s" and "node_consistent cw s"
  shows "ac3_inv cw (map fst (filter (\<lambda>(k, v). v \<noteq> None) (overlaps cw))) s"
proof -
  have d: "distinct (map fst (overlaps cw))" using assms(1) by (simp add: wf_crossword_def)
  have "\<exists>p. map_of (overlaps cw) (x, y) = Some (Some p)"
    if "(x, y) \<in> set (map fst (filter (\<lambda>(k, v). v \<noteq> None) (overlaps cw)))" for x y
  proof -
    from that obtain v where "((x, y), v) \<in> set (overlaps cw)" "v \<noteq> None" by auto
    then show ?thesis using d by (cases v) auto
  qed
  moreover have "(x, y) \<in> set (map fst (filter (\<lambda>(k, v). v \<noteq> None) (overlaps cw)))"
    if "map_of (overlaps cw) (x, y) = Some (Some p)" for x y p
  proof -
    have "((x, y), Some p) \<in> set (overlaps cw)" using that by (rule map_of_SomeD)
    then show ?thesis by force
  qed
  ultimately show ?thesis using assms(2,3) unfolding ac3_inv_def by blast
qed

text \<open>
  C4. For a well-formed crossword and creator with a node-consistent store, \<open>ac3\<close>
  called with no arcs returns. If it returns True, the store is arc consistent. It
  returns False exactly when a domain that was not empty has been left empty, and then
  exactly one domain has been: the loop stopped at the first one.
\<close>

theorem ac3_arc_consistent_or_empty:
  assumes "wf_crossword cw" and "wf_creator cw s" and "node_consistent cw s"
  shows "\<exists>b s'. ac3 cw None s = Inr (b, s') \<and>
           (b \<longrightarrow> arc_consistent cw s') \<and>
           (\<not> b \<longleftrightarrow>
              (\<exists>x\<in>set (variables cw). domain_words s x \<noteq> [] \<and> domain_words s' x = [])) \<and>
           (\<not> b \<longrightarrow>
              (\<forall>x y. domain_words s x \<noteq> [] \<and> domain_words s' x = [] \<and>
                     domain_words s y \<noteq> [] \<and> domain_words s' y = [] \<longrightarrow> x = y))"
proof -
  let ?q = "map fst (filter (\<lambda>(k, v). v \<noteq> None) (overlaps cw))"
  from ac3_loop_correct [OF assms(1) ac3_inv_initial [OF assms]]
  obtain b s' where run: "ac3_loop cw (ArcList ?q) s = Inr (b, s')"
    and post: "ac3_post cw s b s'" by blast
  have ac3: "ac3 cw None s = Inr (b, s')" using run by (simp add: ac3_def)
  have d: "distinct (map fst (overlaps cw))" using assms(1) by (simp add: wf_crossword_def)
  have ac: "arc_consistent cw s'" if b
    unfolding arc_consistent_def
  proof (clarify)
    fix x y v
    assume mem: "((x, y), v) \<in> set (overlaps cw)"
    show "case v of None \<Rightarrow> True
          | Some ov \<Rightarrow> \<forall>w\<in>set (domain_words s' (fst (x, y))).
                         supported ov (domain_words s' (snd (x, y))) w"
    proof (cases v)
      case None
      then show ?thesis by simp
    next
      case (Some ov)
      then have "map_of (overlaps cw) (x, y) = Some (Some ov)" using mem d by simp
      then have "arc_ok s' x y ov" using post that unfolding ac3_post_def by blast
      then show ?thesis using Some by (simp add: arc_ok_def)
    qed
  qed
  have invar: "x \<in> set (variables cw)" if "domain_words s x \<noteq> []" for x
  proof -
    have "map_of (domains s) x \<noteq> None"
      using that by (auto simp: domain_words_def split: option.splits)
    then have "x \<in> fst ` set (domains s)" by (simp add: map_of_eq_None_iff)
    then show ?thesis using assms(2) by (simp add: wf_creator_def)
  qed
  have emptied: "\<exists>x\<in>set (variables cw). domain_words s x \<noteq> [] \<and> domain_words s' x = []"
    if "\<not> b"
    using post that invar unfolding ac3_post_def by blast
  have kept: "\<not> (\<exists>x\<in>set (variables cw). domain_words s x \<noteq> [] \<and> domain_words s' x = [])"
    if b
    using post that unfolding ac3_post_def by metis
  have uniq: "\<forall>x y. domain_words s x \<noteq> [] \<and> domain_words s' x = [] \<and>
                     domain_words s y \<noteq> [] \<and> domain_words s' y = [] \<longrightarrow> x = y" if "\<not> b"
    using post that unfolding ac3_post_def by metis
  show ?thesis using ac3 ac emptied kept uniq by blast
qed

lemma observe_Inr:
  "observe r = Inr (x, da, dd, n) \<longleftrightarrow>
     (\<exists>s. r = Inr (x, s) \<and> domain_words s across_slot = da \<and>
          domain_words s down_slot = dd \<and> backtrack_calls s = n)"
  by (auto simp: observe_def split: sum.splits)

lemma ac3_scenario_a:
  "observe (ac3 scenario_a None scenario_a_store) = Inr (True, [''dog''], [''frog''], 0)"
  by code_simp

lemma ac3_scenario_unsat:
  "observe (ac3 scenario_a None scenario_unsat_store) = Inr (False, [''cat''], [], 0)"
  by code_simp

lemma wf_creator_scenario_unsat_store: "wf_creator scenario_a scenario_unsat_store"
  by (simp add: wf_creator_def wf_store_def scenario_unsat_store_def scenario_defs)

lemma node_consistent_scenario_unsat_store: "node_consistent scenario_a scenario_unsat_store"
  by (simp add: node_consistent_def domain_words_def scenario_unsat_store_def scenario_defs)

theorem ac3_arc_consistent_or_empty_witness:
  "wf_crossword scenario_a \<and> wf_creator scenario_a scenario_a_store \<and>
   node_consistent scenario_a scenario_a_store \<and>
   (\<exists>s'. ac3 scenario_a None scenario_a_store = Inr (True, s') \<and>
      arc_consistent scenario_a s' \<and>
      domain_words s' across_slot = [''dog''] \<and> domain_words s' down_slot = [''frog'']) \<and>
   wf_creator scenario_a scenario_unsat_store \<and>
   node_consistent scenario_a scenario_unsat_store \<and>
   (\<exists>s' x. ac3 scenario_a None scenario_unsat_store = Inr (False, s') \<and>
      domain_words scenario_unsat_store x \<noteq> [] \<and> domain_words s' x = [])"
proof -
  from ac3_scenario_a obtain s0 where s0:
    "ac3 scenario_a None scenario_a_store = Inr (True, s0)"
    "domain_words s0 across_slot = [''dog'']" "domain_words s0 down_slot = [''frog'']"
    unfolding observe_Inr by blast
  from ac3_arc_consistent_or_empty
    [OF wf_scenario_a wf_creator_scenario_a_store node_consistent_scenario_a_store]
  have "arc_consistent scenario_a s0" using s0(1) by auto
  then have sat: "\<exists>s'. ac3 scenario_a None scenario_a_store = Inr (True, s') \<and>
      arc_consistent scenario_a s' \<and>
      domain_words s' across_slot = [''dog''] \<and> domain_words s' down_slot = [''frog'']"
    using s0 by blast
  from ac3_scenario_unsat obtain s1 where s1:
    "ac3 scenario_a None scenario_unsat_store = Inr (False, s1)"
    unfolding observe_Inr by blast
  from ac3_arc_consistent_or_empty
    [OF wf_scenario_a wf_creator_scenario_unsat_store node_consistent_scenario_unsat_store]
  have "\<exists>x. domain_words scenario_unsat_store x \<noteq> [] \<and> domain_words s1 x = []"
    using s1 by auto
  then have unsat: "\<exists>s' x. ac3 scenario_a None scenario_unsat_store = Inr (False, s') \<and>
      domain_words scenario_unsat_store x \<noteq> [] \<and> domain_words s' x = []"
    using s1 by blast
  show ?thesis
    using wf_scenario_a wf_creator_scenario_a_store node_consistent_scenario_a_store
      wf_creator_scenario_unsat_store node_consistent_scenario_unsat_store sat unsat
    by (intro conjI)
qed

section \<open>What the search returns\<close>

lemma backtrack_returns_consistent:
  "distinct (map fst a) \<Longrightarrow> backtrack cw a s = Inr (Some r, s') \<Longrightarrow>
     assignment_complete cw r \<and> distinct (map fst r) \<and> (r = a \<or> consistent cw r = Inr True)"
  "distinct (map fst a) \<Longrightarrow> backtrack_words cw a var ws s0 = Inr (Some r, s') \<Longrightarrow>
     assignment_complete cw r \<and> distinct (map fst r) \<and> consistent cw r = Inr True"
proof (induction cw a s and cw a var ws s0 arbitrary: r s' and r s'
    rule: backtrack_backtrack_words.induct)
  case (1 cw a s)
  show ?case
  proof (cases "assignment_complete cw a")
    case True
    then have "backtrack cw a s = Inr (Some a, count_call s)" by (simp add: backtrack.simps)
    then show ?thesis using "1.prems" True by simp
  next
    case False
    from "1.prems"(2) False obtain var ws
      where sel: "select_unassigned_variable cw a (count_call s) = Inr var"
        and ord: "order_domain_values cw var a (count_call s) = Inr ws"
        and rest: "backtrack_words cw a var ws (count_call s) = Inr (Some r, s')"
      by (subst (asm) backtrack.simps) (auto split: sum.splits)
    from "1.IH" [OF False sel ord "1.prems"(1) rest] show ?thesis by simp
  qed
next
  case (2 cw a var s)
  then show ?case by simp
next
  case (3 cw a var w ws s)
  let ?a' = "AList.update var w a"
  let ?arcs = "Some (ArcSet (map (\<lambda>x. (x, var)) (neighbors cw var)))"
  have d': "distinct (map fst ?a')" using "3.prems"(1) by (simp add: distinct_update)
  from "3.prems"(2) obtain ok where c: "consistent cw ?a' = Inr ok"
    by (auto split: sum.splits)
  show ?case
  proof (cases ok)
    case False
    then have "backtrack_words cw a var ws s = Inr (Some r, s')"
      using "3.prems"(2) c by simp
    from "3.IH"(3) [OF c False "3.prems"(1) this] show ?thesis .
  next
    case True
    from "3.prems"(2) c True obtain inferred s1 where a3: "ac3 cw ?arcs s = Inr (inferred, s1)"
      by (auto split: sum.splits)
    from "3.prems"(2) c True a3 obtain result s2
      where bt: "backtrack cw ?a' s1 = Inr (result, s2)"
      by (auto split: sum.splits)
    show ?thesis
    proof (cases "result = None")
      case False
      then have "result = Some r" using "3.prems"(2) c True a3 bt by simp
      then have "backtrack cw ?a' s1 = Inr (Some r, s2)" using bt by simp
      from "3.IH"(1) [OF c True a3 refl d' this]
      show ?thesis using c True by auto
    next
      case None: True
      then have "backtrack_words cw a var ws (s2\<lparr>domains := domains s\<rparr>) = Inr (Some r, s')"
        using "3.prems"(2) c True a3 bt by simp
      from "3.IH"(2) [OF c True a3 refl bt refl _ "3.prems"(1) this] None
      show ?thesis by simp
    qed
  qed
qed

lemma valid_assignment_empty: "valid_assignment cw []"
  by (simp add: valid_assignment_def)

text \<open>
  C3. For a well-formed crossword, every assignment returned by \<open>solve\<close>, or by
  \<open>backtrack\<close> started from the empty assignment, is complete (every variable has a
  word) and valid: each word has the length of its variable, overlapping variables agree
  at the overlap indices, and the words are pairwise distinct.
\<close>

theorem solve_returns_valid:
  assumes "wf_crossword cw"
    and "solve cw s = Inr (Some a, s') \<or> backtrack cw [] s = Inr (Some a, s')"
  shows "assignment_complete cw a \<and> valid_assignment cw a"
proof -
  from assms(2) obtain s0 where "backtrack cw [] s0 = Inr (Some a, s')"
    by (auto simp: solve_def split: sum.splits)
  from backtrack_returns_consistent(1) [OF _ this]
  have c: "assignment_complete cw a" and d: "distinct (map fst a)"
    and r: "a = [] \<or> consistent cw a = Inr True"
    by simp_all
  from r have "valid_assignment cw a"
  proof
    assume "a = []"
    then show ?thesis by (simp add: valid_assignment_empty)
  next
    assume "consistent cw a = Inr True"
    then show ?thesis using consistent_True_valid [OF assms(1) d] by simp
  qed
  then show ?thesis using c by simp
qed

lemma solve_scenario_a:
  "observe (solve scenario_a (init scenario_a))
   = Inr (Some [(across_slot, ''dog''), (down_slot, ''frog'')], [''dog''], [''frog''], 3)"
  by code_simp

theorem solve_returns_valid_witness:
  "wf_crossword scenario_a \<and>
   (\<exists>s'. solve scenario_a (init scenario_a)
           = Inr (Some [(across_slot, ''dog''), (down_slot, ''frog'')], s')) \<and>
   assignment_complete scenario_a [(across_slot, ''dog''), (down_slot, ''frog'')] \<and>
   valid_assignment scenario_a [(across_slot, ''dog''), (down_slot, ''frog'')]"
proof -
  from solve_scenario_a obtain s' where s': "solve scenario_a (init scenario_a)
           = Inr (Some [(across_slot, ''dog''), (down_slot, ''frog'')], s')"
    unfolding observe_Inr by blast
  from solve_returns_valid [OF wf_scenario_a disjI1, OF s']
  show ?thesis using wf_scenario_a s' by blast
qed

section \<open>\<open>solve\<close> when arc consistency fails\<close>

lemma count_call_simps [simp]:
  "domains (count_call s) = domains s"
  "heap (count_call s) = heap s"
  "backtrack_calls (count_call s) = Suc (backtrack_calls s)"
  "domain_words (count_call s) v = domain_words s v"
  "domain_of (count_call s) v = domain_of s v"
  by (simp_all add: count_call_def domain_words_def domain_of_def split: option.splits)

lemma enforce_node_consistency_establishes:
  assumes "wf_creator cw s" and "enforce_node_consistency cw s = Inr s1"
  shows "wf_creator cw s1 \<and> node_consistent cw s1"
proof -
  have wf: "wf_store s" and keys: "set (variables cw) \<subseteq> fst ` set (domains s)"
    and keys': "set (map fst (domains s)) = set (variables cw)"
    using assms(1) by (auto simp: wf_creator_def)
  from enforce_vars_result [OF wf keys] assms(2)
  have dom: "domains s1 = domains s"
    and hp: "\<And>v a. map_of (domains s) v = Some a \<Longrightarrow>
       heap s1 a = (if v \<in> set (variables cw)
                    then filter (\<lambda>w. length w = var_length v) (heap s a) else heap s a)"
    by (auto simp: enforce_node_consistency_def)
  have wf1: "wf_store s1"
    unfolding wf_store_def
  proof (intro conjI ballI)
    show "distinct (map fst (domains s1))" "distinct (map snd (domains s1))"
      using wf dom by (simp_all add: wf_store_def)
    fix a assume "a \<in> set (map snd (domains s1))"
    then obtain v where "(v, a) \<in> set (domains s)" using dom by auto
    then have m: "map_of (domains s) v = Some a" using wf by (simp add: wf_store_def)
    have "distinct (heap s a)" using wf m by (rule wf_store_distinct)
    then show "distinct (heap s1 a)" using hp [OF m] by simp
  qed
  have "node_consistent cw s1"
    unfolding node_consistent_def
  proof (intro ballI)
    fix v w assume v: "v \<in> set (variables cw)" and w: "w \<in> set (domain_words s1 v)"
    from v keys obtain a where m: "map_of (domains s) v = Some a"
      by (metis map_of_eq_None_iff not_Some_eq subsetD)
    show "length w = var_length v"
      using w hp [OF m] v m dom by (simp add: domain_words_def)
  qed
  then show ?thesis using wf1 dom keys' by (simp add: wf_creator_def)
qed

lemma backtrack_empty_domain:
  assumes "wf_creator cw s" and "x \<in> set (variables cw)" and "domain_words s x = []"
  shows "backtrack cw [] s = Inr (None, count_call s)"
proof -
  have inc: "\<not> assignment_complete cw []"
    using assms(2) by (auto simp: assignment_complete_def list_all_iff)
  have doms: "\<forall>v\<in>set (variables cw).
      map_of ([]::assignment) v = None \<longrightarrow> map_of (domains (count_call s)) v \<noteq> None"
    using wf_creator_domain [OF assms(1)] by simp
  from select_unassigned_variable_choice [OF inc doms]
  obtain var where sel: "select_unassigned_variable cw [] (count_call s) = Inr var"
    and var: "var \<in> set (variables cw)"
    and le: "\<forall>u\<in>set (variables cw). map_of ([]::assignment) u = None \<longrightarrow>
              length (domain_words (count_call s) var)
              \<le> length (domain_words (count_call s) u)"
    by blast
  have "length (domain_words s var) \<le> length (domain_words s x)"
    using le assms(2) by simp
  then have emp: "domain_words s var = []" using assms(3) by simp
  from wf_creator_domain [OF assms(1) var] obtain b where "map_of (domains s) var = Some b"
    by auto
  then have "domain_of s var = Inr []" using emp domain_of_words by metis
  then have ord: "order_domain_values cw var [] (count_call s) = Inr []"
    by (simp add: order_domain_values_def)
  show ?thesis
    by (subst backtrack.simps) (simp add: inc sel ord)
qed

text \<open>
  C1, as the code has it. When \<open>ac3\<close>, run by \<open>solve\<close> after node consistency with no
  arcs, returns False, \<open>solve\<close> returns None; it does call \<open>backtrack\<close>, once, and that
  call returns None at once and leaves the domains as \<open>ac3\<close> left them.
\<close>

theorem solve_after_ac3_failure:
  assumes "wf_crossword cw" and "wf_creator cw s"
    and "enforce_node_consistency cw s = Inr s1"
    and "ac3 cw None s1 = Inr (False, s2)"
  shows "solve cw s = Inr (None, s2\<lparr>backtrack_calls := Suc (backtrack_calls s2)\<rparr>)"
proof -
  from enforce_node_consistency_establishes [OF assms(2,3)]
  have wf1: "wf_creator cw s1" and nc1: "node_consistent cw s1" by simp_all
  from ac3_loop_correct [OF assms(1) ac3_inv_initial [OF assms(1) wf1 nc1]] assms(4)
  have post: "ac3_post cw s1 False s2" by (auto simp: ac3_def)
  then have wf2: "wf_creator cw s2" by (simp add: ac3_post_def)
  from post obtain x where x: "domain_words s1 x \<noteq> []" "domain_words s2 x = []"
    unfolding ac3_post_def by blast
  have "map_of (domains s1) x \<noteq> None"
    using x(1) by (auto simp: domain_words_def split: option.splits)
  then have "x \<in> fst ` set (domains s1)" by (simp add: map_of_eq_None_iff)
  then have xv: "x \<in> set (variables cw)" using wf1 by (simp add: wf_creator_def)
  have "backtrack cw [] s2 = Inr (None, count_call s2)"
    using wf2 xv x(2) by (rule backtrack_empty_domain)
  then show ?thesis using assms(3,4) by (simp add: solve_def count_call_def)
qed

lemma wf_scenario_unsat: "wf_crossword scenario_unsat"
  by (simp add: wf_crossword_def scenario_unsat_def scenario_defs)

lemma wf_creator_init_scenario_unsat: "wf_creator scenario_unsat (init scenario_unsat)"
  by (simp add: wf_creator_def wf_store_def init_def scenario_unsat_def scenario_defs)

lemma ac3_fails_scenario_unsat:
  "(case enforce_node_consistency scenario_unsat (init scenario_unsat) of
      Inl e \<Rightarrow> False
    | Inr s1 \<Rightarrow>
        (case ac3 scenario_unsat None s1 of Inl e \<Rightarrow> False | Inr (ok, s2) \<Rightarrow> \<not> ok))"
  by code_simp

lemma solve_scenario_unsat:
  "observe (solve scenario_unsat (init scenario_unsat)) = Inr (None, [''cat''], [], 1)"
  by code_simp

theorem solve_after_ac3_failure_witness:
  "wf_crossword scenario_unsat \<and> wf_creator scenario_unsat (init scenario_unsat) \<and>
   (\<exists>s1 s2. enforce_node_consistency scenario_unsat (init scenario_unsat) = Inr s1 \<and>
      ac3 scenario_unsat None s1 = Inr (False, s2) \<and>
      solve scenario_unsat (init scenario_unsat)
        = Inr (None, s2\<lparr>backtrack_calls := Suc (backtrack_calls s2)\<rparr>))"
proof -
  from ac3_fails_scenario_unsat obtain s1 s2
    where e: "enforce_node_consistency scenario_unsat (init scenario_unsat) = Inr s1"
      and a: "ac3 scenario_unsat None s1 = Inr (False, s2)"
    by (auto split: sum.splits)
  from solve_after_ac3_failure [OF wf_scenario_unsat wf_creator_init_scenario_unsat e a] e a
  show ?thesis using wf_scenario_unsat wf_creator_init_scenario_unsat by blast
qed

text \<open>
  C1 as claimed fails: on this crossword \<open>ac3\<close> returns False and \<open>solve\<close>, which
  returns None, has invoked \<open>backtrack\<close>: the counter of invocations went from 0 to 1.
\<close>

theorem solve_invokes_backtrack_after_ac3_failure:
  "(case enforce_node_consistency scenario_unsat (init scenario_unsat) of
      Inl e \<Rightarrow> False
    | Inr s1 \<Rightarrow>
        (case ac3 scenario_unsat None s1 of Inl e \<Rightarrow> False | Inr (ok, s2) \<Rightarrow> \<not> ok)) \<and>
   backtrack_calls (init scenario_unsat) = 0 \<and>
   observe (solve scenario_unsat (init scenario_unsat)) = Inr (None, [''cat''], [], 1)"
  using ac3_fails_scenario_unsat solve_scenario_unsat by (simp add: init_def)

section \<open>The snapshot of \<open>backtrack\<close> shares the sets\<close>

text \<open>
  C2 on the code. Before the branch that assigns \<open>cat\<close> to the across slot, the domain
  of the down slot is \<open>frog\<close>. The branch's \<open>ac3\<close> empties it, the recursive call
  returns None, and after \<open>self.domains = prev_domains\<close> the domain is still empty: the
  copy of the dictionary held the same set objects.
\<close>

theorem backtrack_restore_keeps_removals:
  "domain_words scenario_unsat_store down_slot = [''frog''] \<and>
   observe (backtrack_words scenario_a [] across_slot [''cat''] scenario_unsat_store)
     = Inr (None, [''cat''], [], 1)"
  by code_simp

end
